theory Spec2Isabelle
  imports Main "HOL-Library.Word"
begin

section \<open>Memory model\<close>

text \<open>
  The program of \<^verbatim>\<open>indirect-pointer-example.c\<close> builds a singly linked list on the C heap.
  An address is a natural number, a \<^verbatim>\<open>list_entry_t*\<close> is an optional address
  (\<open>None\<close> is \<^verbatim>\<open>NULL\<close>), and the heap maps the live addresses to their nodes.
  The fields \<^verbatim>\<open>value\<close> and \<^verbatim>\<open>next\<close> of the struct are \<open>entry_value\<close> and
  \<open>entry_next\<close>; \<^verbatim>\<open>int\<close> is a 32-bit word.
\<close>

type_synonym addr = nat

type_synonym ptr = "addr option"

record list_entry =
  entry_value :: "32 word"
  entry_next :: ptr

text \<open>
  A \<^verbatim>\<open>list_entry_t**\<close> points at a slot that holds a \<^verbatim>\<open>list_entry_t*\<close>: either the
  variable \<^verbatim>\<open>list_unordered\<close> of \<^verbatim>\<open>main\<close> (\<open>Head\<close>), or the \<^verbatim>\<open>next\<close> field of the
  node at an address (\<open>Next a\<close> is \<^verbatim>\<open>&(a->next)\<close>).
\<close>

datatype pptr = Head | Next addr

record memory =
  list_unordered :: ptr
  heap :: "addr \<rightharpoonup> list_entry"

text \<open>
  Dereferencing \<^verbatim>\<open>NULL\<close> or an address that is not live is undefined behaviour in C;
  the model stops with a fault there.
\<close>

datatype fault = Null_deref | Invalid_deref

text \<open>\<open>load m pp\<close> is \<^verbatim>\<open>*pp\<close>; \<open>store m pp p\<close> is \<^verbatim>\<open>*pp = p\<close>.\<close>

fun load :: "memory \<Rightarrow> pptr \<Rightarrow> fault + ptr" where
  "load m Head = Inr (list_unordered m)"
| "load m (Next a) =
     (case heap m a of None \<Rightarrow> Inl Invalid_deref | Some e \<Rightarrow> Inr (entry_next e))"

fun store :: "memory \<Rightarrow> pptr \<Rightarrow> ptr \<Rightarrow> fault + memory" where
  "store m Head p = Inr (m\<lparr>list_unordered := p\<rparr>)"
| "store m (Next a) p =
     (case heap m a of
        None \<Rightarrow> Inl Invalid_deref
      | Some e \<Rightarrow> Inr (m\<lparr>heap := (heap m)(a \<mapsto> e\<lparr>entry_next := p\<rparr>)\<rparr>))"

text \<open>
  \<^verbatim>\<open>new = malloc(...); new->value = value; new->next = NULL;\<close>
  The allocator is a parameter \<open>malloc\<close>: from the live heap it returns \<^verbatim>\<open>NULL\<close> or an
  address. Writing through a \<^verbatim>\<open>NULL\<close> result is a fault.
\<close>

definition new_entry :: "((addr \<rightharpoonup> list_entry) \<Rightarrow> ptr) \<Rightarrow> 32 word \<Rightarrow> memory \<Rightarrow> fault + addr \<times> memory" where
  "new_entry malloc v m =
     (case malloc (heap m) of
        None \<Rightarrow> Inl Null_deref
      | Some new \<Rightarrow>
          Inr (new, m\<lparr>heap := (heap m)(new \<mapsto> \<lparr>entry_value = v, entry_next = None\<rparr>)\<rparr>))"

section \<open>The two append functions\<close>

text \<open>
  \<^verbatim>\<open>while (!(*indirect == NULL)) { indirect = &((*indirect)->next); }\<close>
  The loop may run forever on a cyclic list, so it is a partial function: \<open>None\<close> is
  non-termination. The last argument counts the executions of the loop body; the
  program does not read it.
\<close>

partial_function (option) indirect_loop :: "memory \<Rightarrow> pptr \<Rightarrow> nat \<Rightarrow> (fault + pptr \<times> nat) option" where
  "indirect_loop m indirect n =
     (case load m indirect of
        Inl e \<Rightarrow> Some (Inl e)
      | Inr None \<Rightarrow> Some (Inr (indirect, n))
      | Inr (Some p) \<Rightarrow> indirect_loop m (Next p) (Suc n))"

declare indirect_loop.simps [code]

definition append_indirect :: "((addr \<rightharpoonup> list_entry) \<Rightarrow> ptr) \<Rightarrow> 32 word \<Rightarrow> pptr \<Rightarrow> memory \<Rightarrow> (fault + memory) option" where
  "append_indirect malloc v indirect_start m =
     (case new_entry malloc v m of
        Inl e \<Rightarrow> Some (Inl e)
      | Inr (new, m1) \<Rightarrow>
          (case indirect_loop m1 indirect_start 0 of
             None \<Rightarrow> None
           | Some (Inl e) \<Rightarrow> Some (Inl e)
           | Some (Inr (indirect, n)) \<Rightarrow> Some (store m1 indirect (Some new))))"

text \<open>
  \<^verbatim>\<open>while (!(direct == NULL)) { prev = direct; direct = direct->next; }\<close>
  The loop returns \<^verbatim>\<open>prev\<close> (\<^verbatim>\<open>direct\<close> is \<^verbatim>\<open>NULL\<close> at the exit) and the count of
  executions of its body.
\<close>

partial_function (option) direct_loop :: "memory \<Rightarrow> ptr \<Rightarrow> ptr \<Rightarrow> nat \<Rightarrow> (fault + ptr \<times> nat) option" where
  "direct_loop m direct prev n =
     (case direct of
        None \<Rightarrow> Some (Inr (prev, n))
      | Some a \<Rightarrow>
          (case heap m a of
             None \<Rightarrow> Some (Inl Invalid_deref)
           | Some e \<Rightarrow> direct_loop m (entry_next e) direct (Suc n)))"

declare direct_loop.simps [code]

definition append_direct :: "((addr \<rightharpoonup> list_entry) \<Rightarrow> ptr) \<Rightarrow> 32 word \<Rightarrow> pptr \<Rightarrow> memory \<Rightarrow> (fault + memory) option" where
  "append_direct malloc v direct_start m =
     (case load m direct_start of
        Inl e \<Rightarrow> Some (Inl e)
      | Inr direct \<Rightarrow>
          (case new_entry malloc v m of
             Inl e \<Rightarrow> Some (Inl e)
           | Inr (new, m1) \<Rightarrow>
               (case direct_loop m1 direct None 0 of
                  None \<Rightarrow> None
                | Some (Inl e) \<Rightarrow> Some (Inl e)
                | Some (Inr (prev, n)) \<Rightarrow>
                    (case prev of
                       None \<Rightarrow> Some (store m1 direct_start (Some new))
                     | Some p \<Rightarrow> Some (store m1 (Next p) (Some new))))))"

text \<open>
  \<^verbatim>\<open>void(*append)(int, void*) = (void*)append_indirect;\<close>
  The global function pointer holds one of the two functions; \<open>append_init\<close> is the
  value the source gives it, and \<open>call_append\<close> is the call through the pointer.
\<close>

datatype append_fn = Append_indirect | Append_direct

definition append_init :: append_fn where
  "append_init = Append_indirect"

fun call_append :: "append_fn \<Rightarrow> ((addr \<rightharpoonup> list_entry) \<Rightarrow> ptr) \<Rightarrow> 32 word \<Rightarrow> pptr \<Rightarrow> memory \<Rightarrow> (fault + memory) option" where
  "call_append Append_indirect = append_indirect"
| "call_append Append_direct = append_direct"

section \<open>Lists in the heap\<close>

text \<open>
  \<open>is_list h p xs\<close>: starting at \<open>p\<close> and following \<^verbatim>\<open>next\<close>, the heap holds exactly the
  nodes \<open>xs\<close> (address and value, in traversal order), and the last \<^verbatim>\<open>next\<close> is \<^verbatim>\<open>NULL\<close>.
\<close>

fun is_list :: "(addr \<rightharpoonup> list_entry) \<Rightarrow> ptr \<Rightarrow> (addr \<times> 32 word) list \<Rightarrow> bool" where
  "is_list h p [] = (p = None)"
| "is_list h p ((a, v) # xs) =
     (p = Some a \<and>
      (case h a of None \<Rightarrow> False | Some e \<Rightarrow> entry_value e = v \<and> is_list h (entry_next e) xs))"

text \<open>The slot that holds the terminating \<^verbatim>\<open>NULL\<close> of a list that starts in slot \<open>pp\<close>.\<close>

definition last_slot :: "pptr \<Rightarrow> (addr \<times> 32 word) list \<Rightarrow> pptr" where
  "last_slot pp xs = (if xs = [] then pp else Next (fst (last xs)))"

text \<open>The memory after a node \<open>new\<close> with value \<open>v\<close> has been linked behind the list \<open>xs\<close>.\<close>

definition linked :: "memory \<Rightarrow> (addr \<times> 32 word) list \<Rightarrow> addr \<Rightarrow> 32 word \<Rightarrow> memory" where
  "linked m xs new v =
     (if xs = []
      then m\<lparr>list_unordered := Some new,
             heap := (heap m)(new \<mapsto> \<lparr>entry_value = v, entry_next = None\<rparr>)\<rparr>
      else m\<lparr>heap := (heap m)(new \<mapsto> \<lparr>entry_value = v, entry_next = None\<rparr>,
               fst (last xs) \<mapsto> \<lparr>entry_value = snd (last xs), entry_next = Some new\<rparr>)\<rparr>)"

section \<open>The allocator\<close>

text \<open>
  What the program needs from \<^verbatim>\<open>malloc\<close>: on a heap with finitely many live nodes it
  returns an address, and that address is not live.
\<close>

definition fresh_allocator :: "((addr \<rightharpoonup> list_entry) \<Rightarrow> ptr) \<Rightarrow> bool" where
  "fresh_allocator malloc \<longleftrightarrow> (\<forall>h. finite (dom h) \<longrightarrow> (\<exists>a. malloc h = Some a \<and> h a = None))"

text \<open>A first-fit allocator: the lowest address that is not live.\<close>

partial_function (option) first_free :: "(addr \<rightharpoonup> list_entry) \<Rightarrow> addr \<Rightarrow> addr option" where
  "first_free h a = (if h a = None then Some a else first_free h (Suc a))"

declare first_free.simps [code]

definition first_fit :: "(addr \<rightharpoonup> list_entry) \<Rightarrow> ptr" where
  "first_fit h = first_free h 0"

section \<open>The driver\<close>

text \<open>
  \<^verbatim>\<open>append(v, &list_unordered)\<close> for each value of a sequence, in order, as the inner
  \<^verbatim>\<open>for\<close> loop of \<^verbatim>\<open>main\<close> calls it.
\<close>

fun append_values :: "append_fn \<Rightarrow> ((addr \<rightharpoonup> list_entry) \<Rightarrow> ptr) \<Rightarrow> 32 word list \<Rightarrow> memory \<Rightarrow> (fault + memory) option" where
  "append_values append_ptr malloc [] m = Some (Inr m)"
| "append_values append_ptr malloc (v # vs) m =
     (case call_append append_ptr malloc v Head m of
        None \<Rightarrow> None
      | Some (Inl e) \<Rightarrow> Some (Inl e)
      | Some (Inr m') \<Rightarrow> append_values append_ptr malloc vs m')"

text \<open>
  \<^verbatim>\<open>argv[1][index] - '0'\<close>: the character is promoted to \<^verbatim>\<open>int\<close> and \<^verbatim>\<open>'0'\<close> is
  subtracted in \<^verbatim>\<open>int\<close>. Whether plain \<^verbatim>\<open>char\<close> is signed is the platform's choice, the
  parameter \<open>char_signed\<close>.
\<close>

definition char_to_int :: "bool \<Rightarrow> char \<Rightarrow> int" where
  "char_to_int char_signed c =
     (if char_signed \<and> 128 \<le> (of_char c :: int) then of_char c - 256 else of_char c)"

definition char_minus_zero :: "bool \<Rightarrow> char \<Rightarrow> 32 word" where
  "char_minus_zero char_signed c =
     word_of_int (char_to_int char_signed c) - word_of_int (char_to_int char_signed CHR ''0'')"

text \<open>
  \<^verbatim>\<open>for (index = 0; index < strlen(argv[1]); index ++) append(argv[1][index] - '0', &list_unordered);\<close>
\<close>

function build_loop :: "((addr \<rightharpoonup> list_entry) \<Rightarrow> ptr) \<Rightarrow> append_fn \<Rightarrow> bool \<Rightarrow> string \<Rightarrow> nat \<Rightarrow> memory \<Rightarrow> (fault + memory) option" where
  "build_loop malloc append_ptr char_signed s index m =
     (if index < length s then
        (case call_append append_ptr malloc (char_minus_zero char_signed (s ! index)) Head m of
           None \<Rightarrow> None
         | Some (Inl e) \<Rightarrow> Some (Inl e)
         | Some (Inr m') \<Rightarrow> build_loop malloc append_ptr char_signed s (Suc index) m')
      else Some (Inr m))"
  by pat_completeness auto
termination
  by (relation "measure (\<lambda>(malloc, append_ptr, char_signed, s, index, m). length s - index)") auto

declare build_loop.simps [simp del]

text \<open>
  What the program prints: a literal text, or the line
  \<^verbatim>\<open>"Iteration: %d, %p: Value: %d, Next: %p\n"\<close> with its four arguments.
\<close>

datatype out = Text string | Node_line nat addr "32 word" ptr

text \<open>
  \<^verbatim>\<open>while (!(list == NULL)) { if (output) printf(...); prev = list; list = list->next; free(prev); }\<close>
  \<^verbatim>\<open>free\<close> removes the node from the live heap.
\<close>

partial_function (option) release_loop :: "bool \<Rightarrow> nat \<Rightarrow> ptr \<Rightarrow> (addr \<rightharpoonup> list_entry) \<Rightarrow> out list \<Rightarrow> (fault + (addr \<rightharpoonup> list_entry) \<times> out list) option" where
  "release_loop output iteration list h outs =
     (case list of
        None \<Rightarrow> Some (Inr (h, outs))
      | Some prev \<Rightarrow>
          (case h prev of
             None \<Rightarrow> Some (Inl Invalid_deref)
           | Some e \<Rightarrow>
               release_loop output iteration (entry_next e) (h(prev := None))
                 (if output
                  then outs @ [Node_line iteration prev (entry_value e) (entry_next e)]
                  else outs)))"

declare release_loop.simps [code]

text \<open>The body of the outer loop: one cycle of build, traverse and release.\<close>

definition cycle :: "((addr \<rightharpoonup> list_entry) \<Rightarrow> ptr) \<Rightarrow> append_fn \<Rightarrow> bool \<Rightarrow> bool \<Rightarrow> string \<Rightarrow> nat \<Rightarrow> (addr \<rightharpoonup> list_entry) \<Rightarrow> out list \<Rightarrow> (fault + (addr \<rightharpoonup> list_entry) \<times> out list) option" where
  "cycle malloc append_ptr char_signed output s iteration h outs =
     (case build_loop malloc append_ptr char_signed s 0 \<lparr>list_unordered = None, heap = h\<rparr> of
        None \<Rightarrow> None
      | Some (Inl e) \<Rightarrow> Some (Inl e)
      | Some (Inr m) \<Rightarrow> release_loop output iteration (list_unordered m) (heap m) outs)"

text \<open>
  \<^verbatim>\<open>for (iteration = 0; iteration < num_itr; iteration ++) { ... }\<close>
  \<^verbatim>\<open>iteration\<close> and \<^verbatim>\<open>index\<close> are \<^verbatim>\<open>size_t\<close>; they stay below \<^verbatim>\<open>num_itr\<close> (an
  \<^verbatim>\<open>int\<close> that is at least 1 when the loop is reached) and below the length of the
  string, so they never wrap and are natural numbers here.
\<close>

function iteration_loop :: "((addr \<rightharpoonup> list_entry) \<Rightarrow> ptr) \<Rightarrow> append_fn \<Rightarrow> bool \<Rightarrow> bool \<Rightarrow> string \<Rightarrow> nat \<Rightarrow> nat \<Rightarrow> (addr \<rightharpoonup> list_entry) \<Rightarrow> out list \<Rightarrow> (fault + (addr \<rightharpoonup> list_entry) \<times> out list) option" where
  "iteration_loop malloc append_ptr char_signed output s num_itr iteration h outs =
     (if iteration < num_itr then
        (case cycle malloc append_ptr char_signed output s iteration h outs of
           None \<Rightarrow> None
         | Some (Inl e) \<Rightarrow> Some (Inl e)
         | Some (Inr (h', outs')) \<Rightarrow>
             iteration_loop malloc append_ptr char_signed output s num_itr (Suc iteration) h' outs')
      else Some (Inr (h, outs)))"
  by pat_completeness auto
termination
  by (relation "measure (\<lambda>(malloc, append_ptr, char_signed, output, s, num_itr, iteration, h, outs).
        num_itr - iteration)") auto

declare iteration_loop.simps [simp del]

definition usage :: "out list" where
  "usage =
     [Text (''Usage:'' @ [CHR 0x0A]),
      Text ''First argument: String to insert into the linked list'',
      Text ''Second argument: Number of test iterations to run'',
      Text ''Third argument: If exists, silence output'']"

definition announce :: "append_fn \<Rightarrow> out list" where
  "announce append_ptr =
     (if append_ptr = Append_indirect then [Text (''Using indirect append'' @ [CHR 0x0A])]
      else if append_ptr = Append_direct then [Text (''Using direct append'' @ [CHR 0x0A])]
      else [])"

text \<open>
  \<^verbatim>\<open>main\<close>. \<open>argv\<close> is the argument vector (\<^verbatim>\<open>argc\<close> is its length), \<open>h\<close> the heap when
  the program starts; \<open>malloc\<close>, \<open>atoi\<close> and \<open>char_signed\<close> come from the C library and
  the platform, \<open>append_ptr\<close> is the value of the global \<^verbatim>\<open>append\<close>. The result is the
  return value, what was printed, and the heap at the end.
\<close>

definition main :: "((addr \<rightharpoonup> list_entry) \<Rightarrow> ptr) \<Rightarrow> (string \<Rightarrow> 32 word) \<Rightarrow> bool \<Rightarrow> append_fn \<Rightarrow> string list \<Rightarrow> (addr \<rightharpoonup> list_entry) \<Rightarrow> (fault + 32 word \<times> out list \<times> (addr \<rightharpoonup> list_entry)) option" where
  "main malloc atoi char_signed append_ptr argv h =
     (if length argv < 3 then Some (Inr (- 1, usage, h))
      else
        let num_itr = atoi (argv ! 2) in
        if sint num_itr < 1
        then Some (Inr (- 1, [Text ''Number of iterations must be an integer greater than 0''], h))
        else
          let output = \<not> (length argv > 3) in
          (case iteration_loop malloc append_ptr char_signed output (argv ! 1)
                  (nat (sint num_itr)) 0 h (if output then announce append_ptr else []) of
             None \<Rightarrow> None
           | Some (Inl e) \<Rightarrow> Some (Inl e)
           | Some (Inr (h', outs)) \<Rightarrow> Some (Inr (0, outs, h'))))"

text \<open>The values of the printed node lines, each with its iteration index.\<close>

fun node_values :: "out list \<Rightarrow> (nat \<times> 32 word) list" where
  "node_values [] = []"
| "node_values (Text t # outs) = node_values outs"
| "node_values (Node_line i a v n # outs) = (i, v) # node_values outs"

text \<open>The lines the traversal prints for the list \<open>xs\<close> in iteration \<open>i\<close>.\<close>

fun node_lines :: "nat \<Rightarrow> (addr \<times> 32 word) list \<Rightarrow> out list" where
  "node_lines i [] = []"
| "node_lines i ((a, v) # xs) =
     Node_line i a v (case xs of [] \<Rightarrow> None | (b, w) # ys \<Rightarrow> Some b) # node_lines i xs"

section \<open>The direct algorithm as the specification words it\<close>

text \<open>
  A state of the walk is the pair (current, previous). One step: when current is a node,
  previous becomes current and current becomes its successor.
\<close>

inductive walk :: "(addr \<rightharpoonup> list_entry) \<Rightarrow> ptr \<times> ptr \<Rightarrow> ptr \<times> ptr \<Rightarrow> bool" for h where
  step: "h a = Some e \<Longrightarrow> walk h (Some a, previous) (entry_next e, Some a)"

code_pred walk .

text \<open>
  Read the head slot into current, with previous none; walk until current is none; then
  write the new node's reference into the head slot if previous is still none, and into
  the successor field of previous otherwise. \<open>m\<close> is the memory that holds the new
  node; the head slot is \<open>list_unordered\<close>, the successor field is \<open>entry_next\<close>.
\<close>

definition append_direct_spec :: "addr \<Rightarrow> memory \<Rightarrow> memory \<Rightarrow> bool" where
  "append_direct_spec new m m' \<longleftrightarrow>
     (\<exists>previous.
        (walk (heap m))\<^sup>*\<^sup>* (list_unordered m, None) (None, previous) \<and>
        (case previous of
           None \<Rightarrow> m' = m\<lparr>list_unordered := Some new\<rparr>
         | Some p \<Rightarrow>
             (case heap m p of
                None \<Rightarrow> False
              | Some e \<Rightarrow> m' = m\<lparr>heap := (heap m)(p \<mapsto> e\<lparr>entry_next := Some new\<rparr>)\<rparr>)))"

section \<open>The chain invariant\<close>

text \<open>\<open>(a, b) \<in> next_rel h\<close>: the \<^verbatim>\<open>next\<close> field of the live node \<open>a\<close> points to \<open>b\<close>.\<close>

definition next_rel :: "(addr \<rightharpoonup> list_entry) \<Rightarrow> (addr \<times> addr) set" where
  "next_rel h = {(a, b). \<exists>e. h a = Some e \<and> entry_next e = Some b}"

text \<open>The nodes of the list: what is reachable from the head slot.\<close>

definition nodes :: "memory \<Rightarrow> addr set" where
  "nodes m = {a. \<exists>p. list_unordered m = Some p \<and> (p, a) \<in> (next_rel (heap m))\<^sup>*}"

text \<open>No node of the list is reachable from itself by one or more \<^verbatim>\<open>next\<close> steps.\<close>

definition acyclic_chain :: "memory \<Rightarrow> bool" where
  "acyclic_chain m \<longleftrightarrow> (\<forall>a \<in> nodes m. (a, a) \<notin> (next_rel (heap m))\<^sup>+)"

text \<open>
  No node is pointed to by the \<^verbatim>\<open>next\<close> fields of two nodes of the list, nor by the head
  slot and a \<^verbatim>\<open>next\<close> field.
\<close>

definition exclusive :: "memory \<Rightarrow> bool" where
  "exclusive m \<longleftrightarrow>
     (\<forall>a \<in> nodes m. \<forall>b \<in> nodes m. \<forall>c.
        (a, c) \<in> next_rel (heap m) \<and> (b, c) \<in> next_rel (heap m) \<longrightarrow> a = b) \<and>
     (\<forall>a \<in> nodes m. \<forall>c. list_unordered m = Some c \<longrightarrow> (a, c) \<notin> next_rel (heap m))"

text \<open>
  The invariant of the data model: the head slot holds a finite list of live nodes that
  ends in \<^verbatim>\<open>NULL\<close>, it has no cycle, and no node is shared.
\<close>

definition chain_invariant :: "memory \<Rightarrow> bool" where
  "chain_invariant m \<longleftrightarrow>
     (\<exists>xs. is_list (heap m) (list_unordered m) xs) \<and> acyclic_chain m \<and> exclusive m"

section \<open>Basic facts about lists in the heap\<close>

lemma is_list_None [simp]: "is_list h None xs \<longleftrightarrow> xs = []"
  by (cases xs) auto

lemma is_list_unique: "is_list h p xs \<Longrightarrow> is_list h p ys \<Longrightarrow> xs = ys"
proof (induction xs arbitrary: p ys)
  case Nil
  then show ?case by simp
next
  case (Cons x xs)
  obtain a v where x: "x = (a, v)" by (cases x)
  from Cons.prems x obtain e where e: "p = Some a" "h a = Some e" "entry_value e = v"
    "is_list h (entry_next e) xs"
    by (auto split: option.splits)
  from Cons.prems(2) e obtain ys' where ys: "ys = (a, v) # ys'" "is_list h (entry_next e) ys'"
    by (cases ys) (auto split: option.splits)
  with Cons.IH e x show ?case by simp
qed

lemma is_list_suffix:
  "is_list h p (us @ (a, v) # vs) \<Longrightarrow> is_list h (Some a) ((a, v) # vs)"
proof (induction us arbitrary: p)
  case Nil
  then show ?case by simp
next
  case (Cons u us)
  obtain b w where u: "u = (b, w)" by (cases u)
  from Cons.prems u obtain e where "h b = Some e" by (cases "h b") auto
  with Cons.prems u have "is_list h (entry_next e) (us @ (a, v) # vs)" by simp
  then show ?case by (rule Cons.IH)
qed

lemma is_list_head_fresh:
  assumes "h a = Some e" and "is_list h (entry_next e) xs"
  shows "a \<notin> fst ` set xs"
proof
  assume "a \<in> fst ` set xs"
  then obtain v where "(a, v) \<in> set xs" by auto
  then obtain us vs where xs: "xs = us @ (a, v) # vs"
    by (auto simp: in_set_conv_decomp)
  with assms(2) have "is_list h (Some a) ((a, v) # vs)"
    using is_list_suffix by blast
  with assms(1) have "is_list h (entry_next e) vs" by simp
  with assms(2) have "xs = vs" by (rule is_list_unique)
  with xs show False by simp
qed

lemma is_list_distinct: "is_list h p xs \<Longrightarrow> distinct (map fst xs)"
proof (induction xs arbitrary: p)
  case Nil
  then show ?case by simp
next
  case (Cons x xs)
  obtain a v where x: "x = (a, v)" by (cases x)
  from Cons.prems x obtain e where e: "h a = Some e" "is_list h (entry_next e) xs"
    by (auto split: option.splits)
  from e have "a \<notin> fst ` set xs" by (rule is_list_head_fresh)
  with Cons.IH e x show ?case by simp
qed

lemma is_list_live: "is_list h p xs \<Longrightarrow> a \<in> fst ` set xs \<Longrightarrow> h a \<noteq> None"
proof (induction xs arbitrary: p)
  case Nil
  then show ?case by simp
next
  case (Cons x xs)
  then show ?case by (cases x) (auto split: option.splits)
qed

lemma is_list_upd_other:
  "a \<notin> fst ` set xs \<Longrightarrow> is_list (h(a \<mapsto> e)) p xs = is_list h p xs"
proof (induction xs arbitrary: p)
  case Nil
  then show ?case by simp
next
  case (Cons x xs)
  then show ?case by (cases x) (auto split: option.splits)
qed

lemma is_list_del_other:
  "a \<notin> fst ` set xs \<Longrightarrow> is_list (h(a := None)) p xs = is_list h p xs"
proof (induction xs arbitrary: p)
  case Nil
  then show ?case by simp
next
  case (Cons x xs)
  then show ?case by (cases x) (auto split: option.splits)
qed

section \<open>The loops and the appends on a list\<close>

lemma is_list_value:
  "is_list h p xs \<Longrightarrow> (a, v) \<in> set xs \<Longrightarrow> \<exists>e. h a = Some e \<and> entry_value e = v"
proof (induction xs arbitrary: p)
  case Nil
  then show ?case by simp
next
  case (Cons x xs)
  obtain b w where x: "x = (b, w)" by (cases x)
  from Cons.prems x obtain e where e: "h b = Some e" by (cases "h b") auto
  with Cons.prems x have l: "entry_value e = w" "is_list h (entry_next e) xs" by simp_all
  show ?case
  proof (cases "(a, v) = (b, w)")
    case True
    with e l show ?thesis by simp
  next
    case False
    with Cons.prems(2) x have "(a, v) \<in> set xs" by auto
    with l show ?thesis using Cons.IH by blast
  qed
qed

lemma last_slot_Cons: "last_slot pp ((a, v) # xs) = last_slot (Next a) xs"
  by (simp add: last_slot_def)

lemma indirect_loop_list:
  "is_list (heap m) p xs \<Longrightarrow> load m pp = Inr p \<Longrightarrow>
   indirect_loop m pp n = Some (Inr (last_slot pp xs, n + length xs))"
proof (induction xs arbitrary: p pp n)
  case Nil
  then show ?case
    by (subst indirect_loop.simps) (simp add: last_slot_def)
next
  case (Cons x xs)
  obtain a v where x: "x = (a, v)" by (cases x)
  from Cons.prems x obtain e where e: "heap m a = Some e" by (cases "heap m a") auto
  with Cons.prems x have l: "p = Some a" "is_list (heap m) (entry_next e) xs" by simp_all
  from e have "load m (Next a) = Inr (entry_next e)" by simp
  with l(2) have "indirect_loop m (Next a) (Suc n)
      = Some (Inr (last_slot (Next a) xs, Suc n + length xs))"
    by (rule Cons.IH)
  moreover from Cons.prems l have "indirect_loop m pp n = indirect_loop m (Next a) (Suc n)"
    by (subst indirect_loop.simps) simp
  ultimately show ?case using x by (simp add: last_slot_Cons)
qed

lemma direct_loop_list:
  "is_list (heap m) p xs \<Longrightarrow>
   direct_loop m p prev n
     = Some (Inr (if xs = [] then prev else Some (fst (last xs)), n + length xs))"
proof (induction xs arbitrary: p prev n)
  case Nil
  then show ?case
    by (subst direct_loop.simps) simp
next
  case (Cons x xs)
  obtain a v where x: "x = (a, v)" by (cases x)
  from Cons.prems x obtain e where e: "heap m a = Some e" by (cases "heap m a") auto
  with Cons.prems x have l: "p = Some a" "is_list (heap m) (entry_next e) xs" by simp_all
  from l(2) have "direct_loop m (entry_next e) (Some a) (Suc n)
      = Some (Inr (if xs = [] then Some a else Some (fst (last xs)), Suc n + length xs))"
    by (rule Cons.IH)
  moreover from e l have "direct_loop m p prev n = direct_loop m (entry_next e) (Some a) (Suc n)"
    by (subst direct_loop.simps) simp
  ultimately show ?case using x by simp
qed

lemma is_list_snoc:
  "is_list h p xs \<Longrightarrow> xs \<noteq> [] \<Longrightarrow> new \<notin> fst ` set xs \<Longrightarrow>
   h new = Some \<lparr>entry_value = v, entry_next = None\<rparr> \<Longrightarrow>
   is_list (h(fst (last xs) \<mapsto> \<lparr>entry_value = snd (last xs), entry_next = Some new\<rparr>)) p
     (xs @ [(new, v)])"
proof (induction xs arbitrary: p)
  case Nil
  then show ?case by simp
next
  case (Cons x xs)
  obtain a w where x: "x = (a, w)" by (cases x)
  from Cons.prems x obtain e where e: "h a = Some e" by (cases "h a") auto
  with Cons.prems x have l: "p = Some a" "entry_value e = w" "is_list h (entry_next e) xs"
    by simp_all
  from Cons.prems x have na: "new \<noteq> a" "new \<notin> fst ` set xs" by auto
  show ?case
  proof (cases "xs = []")
    case True
    with l have "entry_next e = None" by simp
    with True x l e na Cons.prems(4) show ?thesis by simp
  next
    case False
    let ?h = "h(fst (last xs) \<mapsto> \<lparr>entry_value = snd (last xs), entry_next = Some new\<rparr>)"
    from l(3) False na(2) Cons.prems(4) have "is_list ?h (entry_next e) (xs @ [(new, v)])"
      by (rule Cons.IH)
    moreover from e l(3) have "a \<notin> fst ` set xs" by (rule is_list_head_fresh)
    with False have "fst (last xs) \<noteq> a" by (metis last_in_set image_eqI)
    then have "?h a = Some e" using e by simp
    ultimately show ?thesis using False x l by (simp del: fun_upd_apply)
  qed
qed

lemma linked_is_list:
  assumes "is_list (heap m) (list_unordered m) xs" and "heap m new = None"
  shows "is_list (heap (linked m xs new v)) (list_unordered (linked m xs new v)) (xs @ [(new, v)])"
proof (cases "xs = []")
  case True
  then show ?thesis by (simp add: linked_def)
next
  case False
  from assms have n: "new \<notin> fst ` set xs" using is_list_live by blast
  let ?h = "(heap m)(new \<mapsto> \<lparr>entry_value = v, entry_next = None\<rparr>)"
  from n assms(1) have "is_list ?h (list_unordered m) xs" by (simp add: is_list_upd_other)
  from this False n have "is_list (?h(fst (last xs) \<mapsto> \<lparr>entry_value = snd (last xs), entry_next = Some new\<rparr>))
      (list_unordered m) (xs @ [(new, v)])"
    by (rule is_list_snoc) simp
  with False show ?thesis by (simp add: linked_def)
qed

lemma store_last_slot:
  assumes "is_list (heap m) (list_unordered m) xs" and "heap m new = None"
  shows "store (m\<lparr>heap := (heap m)(new \<mapsto> \<lparr>entry_value = v, entry_next = None\<rparr>)\<rparr>)
           (last_slot Head xs) (Some new) = Inr (linked m xs new v)"
proof (cases "xs = []")
  case True
  then show ?thesis by (simp add: linked_def last_slot_def)
next
  case False
  then have "(fst (last xs), snd (last xs)) \<in> set xs" by simp
  with assms(1) obtain e where e: "heap m (fst (last xs)) = Some e" "entry_value e = snd (last xs)"
    using is_list_value by blast
  with assms(2) have "fst (last xs) \<noteq> new" by auto
  moreover from e(2) have upd: "e\<lparr>entry_next := Some new\<rparr>
      = \<lparr>entry_value = snd (last xs), entry_next = Some new\<rparr>"
    by (cases e) simp
  ultimately show ?thesis using e(1) False by (simp add: linked_def last_slot_def upd)
qed

lemma append_indirect_list:
  assumes "is_list (heap m) (list_unordered m) xs"
    and "malloc (heap m) = Some new" and "heap m new = None"
  shows "append_indirect malloc v Head m = Some (Inr (linked m xs new v))"
proof -
  let ?m1 = "m\<lparr>heap := (heap m)(new \<mapsto> \<lparr>entry_value = v, entry_next = None\<rparr>)\<rparr>"
  from assms(2) have ne: "new_entry malloc v m = Inr (new, ?m1)"
    by (simp add: new_entry_def)
  from assms(1,3) have "new \<notin> fst ` set xs" using is_list_live by blast
  with assms(1) have "is_list (heap ?m1) (list_unordered m) xs" by (simp add: is_list_upd_other)
  then have "indirect_loop ?m1 Head 0 = Some (Inr (last_slot Head xs, 0 + length xs))"
    by (rule indirect_loop_list) simp
  with ne show ?thesis
    using store_last_slot [OF assms(1,3)] by (simp add: append_indirect_def)
qed

lemma append_direct_list:
  assumes "is_list (heap m) (list_unordered m) xs"
    and "malloc (heap m) = Some new" and "heap m new = None"
  shows "append_direct malloc v Head m = Some (Inr (linked m xs new v))"
proof -
  let ?m1 = "m\<lparr>heap := (heap m)(new \<mapsto> \<lparr>entry_value = v, entry_next = None\<rparr>)\<rparr>"
  from assms(2) have ne: "new_entry malloc v m = Inr (new, ?m1)"
    by (simp add: new_entry_def)
  from assms(1,3) have "new \<notin> fst ` set xs" using is_list_live by blast
  with assms(1) have "is_list (heap ?m1) (list_unordered m) xs" by (simp add: is_list_upd_other)
  then have "direct_loop ?m1 (list_unordered m) None 0
      = Some (Inr (if xs = [] then None else Some (fst (last xs)), 0 + length xs))"
    by (rule direct_loop_list)
  with ne show ?thesis
    using store_last_slot [OF assms(1,3), of v]
    by (cases "xs = []") (simp_all add: append_direct_def last_slot_def)
qed

lemma linked_new:
  assumes "new \<notin> fst ` set xs"
  shows "heap (linked m xs new v) new = Some \<lparr>entry_value = v, entry_next = None\<rparr>"
proof (cases "xs = []")
  case True
  then show ?thesis by (simp add: linked_def)
next
  case False
  then have "last xs \<in> set xs" by simp
  with assms have "fst (last xs) \<noteq> new" by auto
  with False show ?thesis by (simp add: linked_def)
qed

lemma linked_head:
  "list_unordered (linked m xs new v) = (if xs = [] then Some new else list_unordered m)"
  by (simp add: linked_def)

lemma first_free_bound:
  "\<forall>b \<ge> k. h b = None \<Longrightarrow> \<exists>b. first_free h a = Some b \<and> h b = None"
proof (induction "k - a" arbitrary: a)
  case 0
  then have "h a = None" by simp
  then show ?case by (subst first_free.simps) simp
next
  case (Suc d)
  show ?case
  proof (cases "h a = None")
    case True
    then show ?thesis by (subst first_free.simps) simp
  next
    case False
    from Suc.hyps(2) have "d = k - Suc a" by simp
    from Suc.hyps(1) [OF this Suc.prems] obtain b where "first_free h (Suc a) = Some b" "h b = None"
      by blast
    with False show ?thesis by (subst first_free.simps) simp
  qed
qed

lemma first_fit_fresh: "fresh_allocator first_fit"
  unfolding fresh_allocator_def
proof (intro allI impI)
  fix h :: "addr \<rightharpoonup> list_entry"
  assume "finite (dom h)"
  then obtain k where "\<forall>a \<in> dom h. a < k"
    using finite_nat_set_iff_bounded by blast
  then have "\<forall>b \<ge> k. h b = None" by (metis domIff not_le)
  then show "\<exists>a. first_fit h = Some a \<and> h a = None"
    unfolding first_fit_def by (rule first_free_bound)
qed

section \<open>Sequences of appends and the driver\<close>

lemma call_append_list:
  assumes "is_list (heap m) (list_unordered m) xs"
    and "malloc (heap m) = Some new" and "heap m new = None"
  shows "call_append append_ptr malloc v Head m = Some (Inr (linked m xs new v))"
proof (cases append_ptr)
  case Append_indirect
  then show ?thesis
    using append_indirect_list [of m xs malloc new v, OF assms] by simp
next
  case Append_direct
  then show ?thesis
    using append_direct_list [of m xs malloc new v, OF assms] by simp
qed

lemma is_list_last:
  "is_list h p xs \<Longrightarrow> xs \<noteq> [] \<Longrightarrow>
   \<exists>e. h (fst (last xs)) = Some e \<and> entry_value e = snd (last xs) \<and> entry_next e = None"
proof (induction xs arbitrary: p)
  case Nil
  then show ?case by simp
next
  case (Cons x xs)
  obtain a v where x: "x = (a, v)" by (cases x)
  from Cons.prems x obtain e where e: "h a = Some e" by (cases "h a") auto
  with Cons.prems x have l: "entry_value e = v" "is_list h (entry_next e) xs" by simp_all
  show ?case
  proof (cases "xs = []")
    case True
    with l have "entry_next e = None" by simp
    with True x e l show ?thesis by simp
  next
    case False
    with l(2) show ?thesis using Cons.IH by simp
  qed
qed

lemma linked_dom: 
  assumes "is_list (heap m) (list_unordered m) xs"
  shows "dom (heap (linked m xs new v)) = insert new (dom (heap m))"
proof (cases "xs = []")
  case True
  then show ?thesis by (simp add: linked_def)
next
  case False
  with assms obtain e where "heap m (fst (last xs)) = Some e"
    using is_list_last by blast
  then have "fst (last xs) \<in> dom (heap m)" by blast
  with False show ?thesis by (auto simp: linked_def)
qed

lemma linked_other:
  "a \<noteq> new \<Longrightarrow> a \<notin> fst ` set xs \<Longrightarrow> heap (linked m xs new v) a = heap m a"
proof (cases "xs = []")
  case True
  assume "a \<noteq> new"
  with True show ?thesis by (simp add: linked_def)
next
  case False
  assume a: "a \<noteq> new" "a \<notin> fst ` set xs"
  from False have "last xs \<in> set xs" by simp
  with a(2) have "fst (last xs) \<noteq> a" by auto
  with a(1) False show ?thesis by (simp add: linked_def)
qed

lemma append_values_list:
  assumes "fresh_allocator malloc"
  shows "finite (dom (heap m)) \<Longrightarrow> is_list (heap m) (list_unordered m) xs \<Longrightarrow>
    \<exists>m' ys. append_values append_ptr malloc vs m = Some (Inr m') \<and>
      is_list (heap m') (list_unordered m') (xs @ ys) \<and> map snd ys = vs \<and>
      finite (dom (heap m')) \<and> fst ` set ys \<inter> dom (heap m) = {} \<and>
      (\<forall>a. a \<notin> fst ` set (xs @ ys) \<longrightarrow> heap m' a = heap m a)"
proof (induction vs arbitrary: m xs)
  case Nil
  then show ?case by simp
next
  case (Cons v vs)
  from assms Cons.prems(1) obtain new where new: "malloc (heap m) = Some new" "heap m new = None"
    unfolding fresh_allocator_def by blast
  define m1 where "m1 = linked m xs new v"
  have call: "call_append append_ptr malloc v Head m = Some (Inr m1)"
    unfolding m1_def using Cons.prems(2) new by (rule call_append_list)
  have l: "is_list (heap m1) (list_unordered m1) (xs @ [(new, v)])"
    unfolding m1_def using Cons.prems(2) new(2) by (rule linked_is_list)
  have d: "dom (heap m1) = insert new (dom (heap m))"
    unfolding m1_def using Cons.prems(2) by (rule linked_dom)
  with Cons.prems(1) have f: "finite (dom (heap m1))" by simp
  have other: "heap m1 a = heap m a" if "a \<noteq> new" "a \<notin> fst ` set xs" for a
    unfolding m1_def using that by (rule linked_other)
  from Cons.IH [OF f l] obtain m' ys where
    r1: "append_values append_ptr malloc vs m1 = Some (Inr m')"
    and r2: "is_list (heap m') (list_unordered m') ((xs @ [(new, v)]) @ ys)"
    and r3: "map snd ys = vs"
    and r4: "finite (dom (heap m'))"
    and r5: "fst ` set ys \<inter> dom (heap m1) = {}"
    and r6: "\<forall>a. a \<notin> fst ` set ((xs @ [(new, v)]) @ ys) \<longrightarrow> heap m' a = heap m1 a"
    by (elim exE conjE)
  have "append_values append_ptr malloc (v # vs) m = Some (Inr m')"
    using call r1 by simp
  moreover have "is_list (heap m') (list_unordered m') (xs @ (new, v) # ys)"
    using r2 by simp
  moreover have "map snd ((new, v) # ys) = v # vs" using r3 by simp
  moreover note r4
  moreover have "fst ` set ((new, v) # ys) \<inter> dom (heap m) = {}"
  proof -
    from new(2) have "new \<notin> dom (heap m)" by (simp add: domIff)
    moreover from r5 d have "fst ` set ys \<inter> dom (heap m) = {}" by blast
    ultimately show ?thesis by simp
  qed
  moreover have "\<forall>a. a \<notin> fst ` set (xs @ (new, v) # ys) \<longrightarrow> heap m' a = heap m a"
  proof (intro allI impI)
    fix a
    assume a: "a \<notin> fst ` set (xs @ (new, v) # ys)"
    then have "a \<notin> fst ` set ((xs @ [(new, v)]) @ ys)" by simp
    with r6 have "heap m' a = heap m1 a" by blast
    moreover from a have "a \<noteq> new" "a \<notin> fst ` set xs" by auto
    then have "heap m1 a = heap m a" by (rule other)
    ultimately show "heap m' a = heap m a" by simp
  qed
  ultimately show ?case by (intro exI [of _ m'] exI [of _ "(new, v) # ys"] conjI)
qed

lemma append_values_same:
  assumes "fresh_allocator malloc"
  shows "finite (dom (heap m)) \<Longrightarrow> is_list (heap m) (list_unordered m) xs \<Longrightarrow>
    append_values Append_indirect malloc vs m = append_values Append_direct malloc vs m"
proof (induction vs arbitrary: m xs)
  case Nil
  then show ?case by simp
next
  case (Cons v vs)
  from assms Cons.prems(1) obtain new where new: "malloc (heap m) = Some new" "heap m new = None"
    unfolding fresh_allocator_def by blast
  let ?m = "linked m xs new v"
  have call: "call_append append_ptr malloc v Head m = Some (Inr ?m)" for append_ptr
    using Cons.prems(2) new by (rule call_append_list)
  have l: "is_list (heap ?m) (list_unordered ?m) (xs @ [(new, v)])"
    using Cons.prems(2) new(2) by (rule linked_is_list)
  have "dom (heap ?m) = insert new (dom (heap m))"
    using Cons.prems(2) by (rule linked_dom)
  with Cons.prems(1) have f: "finite (dom (heap ?m))" by simp
  from Cons.IH [OF f l] show ?case
    using call [of Append_indirect] call [of Append_direct] by simp
qed

lemma is_list_ptr:
  "is_list h p xs \<Longrightarrow> p = (case xs of [] \<Rightarrow> None | (b, w) # ys \<Rightarrow> Some b)"
  by (cases xs) auto

lemma release_loop_list:
  "is_list h p xs \<Longrightarrow>
   release_loop output i p h outs
     = Some (Inr (\<lambda>a. if a \<in> fst ` set xs then None else h a,
                  outs @ (if output then node_lines i xs else [])))"
proof (induction xs arbitrary: p h outs)
  case Nil
  then show ?case by (subst release_loop.simps) simp
next
  case (Cons x xs)
  obtain a v where x: "x = (a, v)" by (cases x)
  from Cons.prems x obtain e where e: "h a = Some e" by (cases "h a") auto
  with Cons.prems x have l: "p = Some a" "entry_value e = v" "is_list h (entry_next e) xs"
    by simp_all
  from e l(3) have na: "a \<notin> fst ` set xs" by (rule is_list_head_fresh)
  with l(3) have l': "is_list (h(a := None)) (entry_next e) xs" by (simp add: is_list_del_other)
  let ?outs = "if output then outs @ [Node_line i a (entry_value e) (entry_next e)] else outs"
  have step: "release_loop output i p h outs
      = release_loop output i (entry_next e) (h(a := None)) ?outs"
    using e l(1) by (subst release_loop.simps) simp
  have nxt: "entry_next e = (case xs of [] \<Rightarrow> None | (b, w) # ys \<Rightarrow> Some b)"
    using l(3) by (rule is_list_ptr)
  have eq1: "(\<lambda>b. if b \<in> fst ` set xs then None else (h(a := None)) b)
      = (\<lambda>b. if b \<in> fst ` set (x # xs) then None else h b)"
    using x by auto
  have eq2: "?outs @ (if output then node_lines i xs else [])
      = outs @ (if output then node_lines i (x # xs) else [])"
    using x l(2) nxt by simp
  have "release_loop output i p h outs
      = Some (Inr (\<lambda>b. if b \<in> fst ` set xs then None else (h(a := None)) b,
                   ?outs @ (if output then node_lines i xs else [])))"
    unfolding step by (rule Cons.IH [OF l'])
  then show ?case by (simp only: eq1 eq2)
qed

lemma node_values_append: "node_values (outs @ outs') = node_values outs @ node_values outs'"
  by (induction outs rule: node_values.induct) simp_all

lemma node_values_node_lines: "node_values (node_lines i xs) = map (\<lambda>x. (i, snd x)) xs"
  by (induction i xs rule: node_lines.induct) simp_all

lemma node_lines_no_text: "Text t \<notin> set (node_lines i xs)"
  by (induction i xs rule: node_lines.induct) simp_all

lemma build_loop_values:
  "build_loop malloc append_ptr char_signed s index m
     = append_values append_ptr malloc (map (char_minus_zero char_signed) (drop index s)) m"
proof (induction malloc append_ptr char_signed s index m rule: build_loop.induct)
  case (1 malloc append_ptr char_signed s index m)
  show ?case
  proof (cases "index < length s")
    case True
    then have d: "drop index s = s ! index # drop (Suc index) s"
      by (simp add: Cons_nth_drop_Suc)
    show ?thesis
    proof (cases "call_append append_ptr malloc (char_minus_zero char_signed (s ! index)) Head m")
      case None
      with True d show ?thesis by (subst build_loop.simps) simp
    next
      case (Some r)
      show ?thesis
      proof (cases r)
        case (Inl e)
        with Some True d show ?thesis by (subst build_loop.simps) simp
      next
        case (Inr m')
        with Some True d "1.IH" [OF True Some Inr] show ?thesis
          by (subst build_loop.simps) simp
      qed
    qed
  next
    case False
    then show ?thesis by (subst build_loop.simps) simp
  qed
qed

lemma cycle_list:
  assumes "fresh_allocator malloc" and "finite (dom h)"
  shows "\<exists>m xs. build_loop malloc append_ptr char_signed s 0 \<lparr>list_unordered = None, heap = h\<rparr>
             = Some (Inr m) \<and>
           is_list (heap m) (list_unordered m) xs \<and>
           map snd xs = map (char_minus_zero char_signed) s \<and>
           fst ` set xs \<inter> dom h = {} \<and>
           cycle malloc append_ptr char_signed output s i h outs
             = Some (Inr (h, outs @ (if output then node_lines i xs else [])))"
proof -
  let ?m0 = "\<lparr>list_unordered = None, heap = h\<rparr>"
  have "finite (dom (heap ?m0))" "is_list (heap ?m0) (list_unordered ?m0) []"
    using assms(2) by simp_all
  from append_values_list [OF assms(1) this, of append_ptr "map (char_minus_zero char_signed) s"]
  obtain m xs where
    r: "append_values append_ptr malloc (map (char_minus_zero char_signed) s) ?m0 = Some (Inr m)"
      "is_list (heap m) (list_unordered m) xs" "map snd xs = map (char_minus_zero char_signed) s"
      "fst ` set xs \<inter> dom h = {}" "\<forall>a. a \<notin> fst ` set xs \<longrightarrow> heap m a = h a"
    by auto
  have b: "build_loop malloc append_ptr char_signed s 0 ?m0 = Some (Inr m)"
    using r(1) by (simp add: build_loop_values)
  have "(\<lambda>a. if a \<in> fst ` set xs then None else heap m a) = h"
  proof
    fix a
    show "(if a \<in> fst ` set xs then None else heap m a) = h a"
    proof (cases "a \<in> fst ` set xs")
      case True
      with r(4) have "a \<notin> dom h" by blast
      with True show ?thesis by (simp add: domIff)
    next
      case False
      with r(5) show ?thesis by simp
    qed
  qed
  with release_loop_list [OF r(2), of "output" i outs]
  have "cycle malloc append_ptr char_signed output s i h outs
      = Some (Inr (h, outs @ (if output then node_lines i xs else [])))"
    using b by (simp add: cycle_def)
  with b r(2,3,4) show ?thesis by blast
qed

lemma iteration_loop_list:
  assumes "fresh_allocator malloc" and "finite (dom h)"
  shows "\<exists>lines. iteration_loop malloc append_ptr char_signed output s num_itr iteration h outs
             = Some (Inr (h, outs @ lines)) \<and>
           node_values lines
             = (if output
                then concat (map (\<lambda>i. map (\<lambda>c. (i, char_minus_zero char_signed c)) s)
                       [iteration..<num_itr])
                else []) \<and>
           (\<not> output \<longrightarrow> lines = []) \<and> (\<forall>t. Text t \<notin> set lines)"
proof (induction "num_itr - iteration" arbitrary: iteration outs)
  case 0
  then show ?case by (subst iteration_loop.simps) simp
next
  case (Suc d)
  then have lt: "iteration < num_itr" and d: "d = num_itr - Suc iteration" by simp_all
  from cycle_list [OF assms, of append_ptr char_signed s "output" iteration outs]
  obtain xs where xs: "map snd xs = map (char_minus_zero char_signed) s"
    "cycle malloc append_ptr char_signed output s iteration h outs
       = Some (Inr (h, outs @ (if output then node_lines iteration xs else [])))"
    by blast
  let ?outs = "outs @ (if output then node_lines iteration xs else [])"
  from Suc.hyps(1) [of "Suc iteration" ?outs, OF d] obtain lines where
    r: "iteration_loop malloc append_ptr char_signed output s num_itr (Suc iteration) h ?outs
          = Some (Inr (h, ?outs @ lines))"
      "node_values lines
         = (if output
            then concat (map (\<lambda>i. map (\<lambda>c. (i, char_minus_zero char_signed c)) s)
                   [Suc iteration..<num_itr])
            else [])"
      "\<not> output \<longrightarrow> lines = []" "\<forall>t. Text t \<notin> set lines"
    by blast
  let ?lines = "(if output then node_lines iteration xs else []) @ lines"
  have loop: "iteration_loop malloc append_ptr char_signed output s num_itr iteration h outs
      = Some (Inr (h, outs @ ?lines))"
    using lt xs(2) r(1) by (subst iteration_loop.simps) simp
  have "map (\<lambda>x. (iteration, snd x)) xs = map (Pair iteration) (map snd xs)"
    by simp
  then have "map (\<lambda>x. (iteration, snd x)) xs
      = map (\<lambda>c. (iteration, char_minus_zero char_signed c)) s"
    unfolding xs(1) by simp
  moreover from lt have "[iteration..<num_itr] = iteration # [Suc iteration..<num_itr]"
    by (rule upt_conv_Cons)
  ultimately have "node_values ?lines
      = (if output
         then concat (map (\<lambda>i. map (\<lambda>c. (i, char_minus_zero char_signed c)) s)
                [iteration..<num_itr])
         else [])"
    using r(2,3) by (simp add: node_values_append node_values_node_lines)
  moreover note loop
  moreover have "\<not> output \<longrightarrow> ?lines = []" using r(3) by simp
  moreover have "\<forall>t. Text t \<notin> set ?lines" using r(4) node_lines_no_text by simp
  ultimately show ?case by blast
qed

lemma iteration_loop_split:
  "j \<le> i \<Longrightarrow> i \<le> K \<Longrightarrow>
   iteration_loop malloc append_ptr char_signed out s i j h outs = Some (Inr (h', outs')) \<Longrightarrow>
   iteration_loop malloc append_ptr char_signed out s K j h outs
     = iteration_loop malloc append_ptr char_signed out s K i h' outs'"
proof (induction "i - j" arbitrary: j h outs)
  case 0
  then have "j = i" by simp
  with "0.prems"(3) show ?case by (simp add: iteration_loop.simps [of _ _ _ _ _ i i])
next
  case (Suc d)
  then have lt: "j < i" "j < K" and d: "d = i - Suc j" and le: "Suc j \<le> i" by simp_all
  show ?case
  proof (cases "cycle malloc append_ptr char_signed out s j h outs")
    case None
    with lt Suc.prems(3) show ?thesis by (simp add: iteration_loop.simps [of _ _ _ _ _ i j])
  next
    case (Some r)
    show ?thesis
    proof (cases r)
      case (Inl e)
      with Some lt Suc.prems(3) show ?thesis
        by (simp add: iteration_loop.simps [of _ _ _ _ _ i j])
    next
      case (Inr p)
      obtain h1 outs1 where p: "p = (h1, outs1)" by (cases p)
      from Some Inr p lt Suc.prems(3)
      have "iteration_loop malloc append_ptr char_signed out s i (Suc j) h1 outs1
          = Some (Inr (h', outs'))"
        by (simp add: iteration_loop.simps [of _ _ _ _ _ i j])
      with Suc.hyps(1) [OF d le Suc.prems(2)]
      have "iteration_loop malloc append_ptr char_signed out s K (Suc j) h1 outs1
          = iteration_loop malloc append_ptr char_signed out s K i h' outs'"
        by blast
      with Some Inr p lt show ?thesis
        by (simp add: iteration_loop.simps [of _ _ _ _ _ K j])
    qed
  qed
qed

section \<open>Characters as integers\<close>







section \<open>The direct loop and the walk of the specification\<close>

lemma walk_of_direct_loop:
  assumes "direct_loop m direct prev n = Some (Inr (p, k))"
  shows "(walk (heap m))\<^sup>*\<^sup>* (direct, prev) (None, p)"
proof -
  let ?P = "\<lambda>m direct prev (n :: nat) (r :: fault + ptr \<times> nat).
    \<forall>p k. r = Inr (p, k) \<longrightarrow> (walk (heap m))\<^sup>*\<^sup>* (direct, prev) (None, p)"
  have "?P m direct prev n (Inr (p, k))"
  proof (rule direct_loop.raw_induct [where P = ?P])
    show "direct_loop m direct prev n = Some (Inr (p, k))" by (fact assms)
  next
    fix f m direct prev n r
    assume IH: "\<And>m direct prev n r. f m direct prev n = Some r \<Longrightarrow> ?P m direct prev n r"
      and eq: "(case direct of
                  None \<Rightarrow> Some (Inr (prev, n))
                | Some a \<Rightarrow>
                    (case heap m a of
                       None \<Rightarrow> Some (Inl Invalid_deref)
                     | Some e \<Rightarrow> f m (entry_next e) direct (Suc n))) = Some r"
    show "?P m direct prev n r"
    proof (cases direct)
      case None
      with eq show ?thesis by auto
    next
      case (Some a)
      show ?thesis
      proof (cases "heap m a")
        case None
        with Some eq show ?thesis by auto
      next
        case e: (Some e)
        with Some eq have "f m (entry_next e) (Some a) (Suc n) = Some r" by simp
        then have "?P m (entry_next e) (Some a) (Suc n) r" by (rule IH)
        moreover from e have "walk (heap m) (Some a, prev) (entry_next e, Some a)"
          by (rule walk.step)
        ultimately show ?thesis using Some
          by (auto intro: converse_rtranclp_into_rtranclp)
      qed
    qed
  qed
  then show ?thesis by simp
qed

lemma direct_loop_of_walk:
  "(walk h)\<^sup>*\<^sup>* x (None, p) \<Longrightarrow> h = heap m \<Longrightarrow>
   \<exists>k. direct_loop m (fst x) (snd x) n = Some (Inr (p, k))"
proof (induction arbitrary: n rule: converse_rtranclp_induct)
  case base
  show ?case by (subst direct_loop.simps) simp
next
  case (step x y)
  from step.hyps(1) obtain a e prev where w: "x = (Some a, prev)" "y = (entry_next e, Some a)"
    "h a = Some e"
    by (auto elim: walk.cases)
  from step.IH [OF step.prems, of "Suc n"] w(2)
  obtain k where "direct_loop m (entry_next e) (Some a) (Suc n) = Some (Inr (p, k))" by auto
  with w step.prems have "direct_loop m (fst x) (snd x) n = Some (Inr (p, k))"
    by (subst direct_loop.simps) simp
  then show ?case by blast
qed

lemma new_entry_head:
  "new_entry malloc v m = Inr (new, m1) \<Longrightarrow> list_unordered m1 = list_unordered m"
  by (auto simp: new_entry_def split: option.splits)

section \<open>Reachability along a list\<close>

lemma reach_in_tail:
  "is_list h (Some a) ((a, v) # ys) \<Longrightarrow> (a, b) \<in> (next_rel h)\<^sup>+ \<Longrightarrow> b \<in> fst ` set ys"
proof (induction ys arbitrary: a v)
  case Nil
  from Nil.prems(1) obtain e where e: "h a = Some e" by (cases "h a") auto
  with Nil.prems(1) have "entry_next e = None" by simp
  moreover from Nil.prems(2) obtain z where "(a, z) \<in> next_rel h" by (auto dest: tranclD)
  ultimately show ?case using e by (simp add: next_rel_def)
next
  case (Cons y ys)
  obtain c w where y: "y = (c, w)" by (cases y)
  from Cons.prems(1) obtain e where e: "h a = Some e" by (cases "h a") auto
  with Cons.prems(1) y have l: "is_list h (entry_next e) ((c, w) # ys)" by simp
  then have n: "entry_next e = Some c" by simp
  with l have l': "is_list h (Some c) ((c, w) # ys)" by simp
  from Cons.prems(2) obtain z where z: "(a, z) \<in> next_rel h" "(z, b) \<in> (next_rel h)\<^sup>*"
    by (auto dest: tranclD)
  from z(1) e n have "z = c" by (auto simp: next_rel_def)
  with z(2) have "b = c \<or> (c, b) \<in> (next_rel h)\<^sup>+" by (auto dest: rtranclD)
  then show ?case
  proof
    assume "b = c"
    with y show ?thesis by simp
  next
    assume "(c, b) \<in> (next_rel h)\<^sup>+"
    with l' have "b \<in> fst ` set ys" by (rule Cons.IH)
    then show ?thesis by simp
  qed
qed

lemma tail_reachable:
  "is_list h (Some a) ((a, v) # ys) \<Longrightarrow> b \<in> fst ` set ys \<Longrightarrow> (a, b) \<in> (next_rel h)\<^sup>+"
proof (induction ys arbitrary: a v)
  case Nil
  then show ?case by simp
next
  case (Cons y ys)
  obtain c w where y: "y = (c, w)" by (cases y)
  from Cons.prems(1) obtain e where e: "h a = Some e" by (cases "h a") auto
  with Cons.prems(1) y have l: "is_list h (entry_next e) ((c, w) # ys)" by simp
  then have n: "entry_next e = Some c" by simp
  with l have l': "is_list h (Some c) ((c, w) # ys)" by simp
  from e n have s: "(a, c) \<in> next_rel h" by (simp add: next_rel_def)
  show ?case
  proof (cases "b = c")
    case True
    with s show ?thesis by blast
  next
    case False
    with Cons.prems(2) y have "b \<in> fst ` set ys" by auto
    with l' have "(c, b) \<in> (next_rel h)\<^sup>+" by (rule Cons.IH)
    with s show ?thesis by (rule trancl_into_trancl2)
  qed
qed

lemma nodes_list:
  assumes "is_list (heap m) (list_unordered m) xs"
  shows "nodes m = fst ` set xs"
proof (cases xs)
  case Nil
  with assms show ?thesis by (simp add: nodes_def)
next
  case (Cons x ys)
  obtain p v where x: "x = (p, v)" by (cases x)
  from assms Cons x have hd: "list_unordered m = Some p" by simp
  with assms Cons x have l: "is_list (heap m) (Some p) ((p, v) # ys)" by simp
  have "nodes m = {a. (p, a) \<in> (next_rel (heap m))\<^sup>*}"
    using hd by (simp add: nodes_def)
  also have "\<dots> = insert p {a. (p, a) \<in> (next_rel (heap m))\<^sup>+}"
    by (auto simp: rtrancl_eq_or_trancl)
  also have "{a. (p, a) \<in> (next_rel (heap m))\<^sup>+} = fst ` set ys"
    using reach_in_tail [OF l] tail_reachable [OF l] by blast
  finally show ?thesis using Cons x by simp
qed

lemma list_acyclic:
  assumes "is_list (heap m) (list_unordered m) xs"
  shows "acyclic_chain m"
  unfolding acyclic_chain_def
proof
  fix a
  assume "a \<in> nodes m"
  with assms have "a \<in> fst ` set xs" by (simp add: nodes_list)
  then obtain v where "(a, v) \<in> set xs" by auto
  then obtain us vs where "xs = us @ (a, v) # vs" by (auto simp: in_set_conv_decomp)
  with assms have l: "is_list (heap m) (Some a) ((a, v) # vs)" using is_list_suffix by blast
  then obtain e where e: "heap m a = Some e" by (cases "heap m a") auto
  with l have "is_list (heap m) (entry_next e) vs" by simp
  with e have "a \<notin> fst ` set vs" by (rule is_list_head_fresh)
  with l show "(a, a) \<notin> (next_rel (heap m))\<^sup>+" using reach_in_tail by blast
qed

lemma list_successor:
  assumes "is_list h p xs" and "a \<in> fst ` set xs" and "(a, c) \<in> next_rel h"
  shows "\<exists>us vs. map fst xs = us @ a # c # vs"
proof -
  from assms(2) obtain v where "(a, v) \<in> set xs" by auto
  then obtain us vs where xs: "xs = us @ (a, v) # vs" by (auto simp: in_set_conv_decomp)
  with assms(1) have l: "is_list h (Some a) ((a, v) # vs)" using is_list_suffix by blast
  then obtain e where e: "h a = Some e" by (cases "h a") auto
  with l have l': "is_list h (entry_next e) vs" by simp
  from assms(3) e have "entry_next e = Some c" by (simp add: next_rel_def)
  with l' obtain w ws where "vs = (c, w) # ws" by (cases vs) auto
  with xs have "map fst xs = map fst us @ a # c # map fst ws" by simp
  then show ?thesis by blast
qed

lemma list_exclusive:
  assumes "is_list (heap m) (list_unordered m) xs"
  shows "exclusive m"
proof -
  have d: "distinct (map fst xs)" using assms by (rule is_list_distinct)
  have n: "nodes m = fst ` set xs" using assms by (rule nodes_list)
  have one: "a = b" if "a \<in> nodes m" "b \<in> nodes m"
    "(a, c) \<in> next_rel (heap m)" "(b, c) \<in> next_rel (heap m)" for a b c
  proof -
    from assms that(1,3) n obtain us vs where 1: "map fst xs = us @ a # c # vs"
      using list_successor by blast
    from assms that(2,4) n obtain us' vs' where 2: "map fst xs = us' @ b # c # vs'"
      using list_successor by blast
    from 1 have 3: "map fst xs = (us @ [a]) @ c # vs" by simp
    from 2 have 4: "map fst xs = (us' @ [b]) @ c # vs'" by simp
    from d 3 have nin: "c \<notin> set (us @ [a])" "c \<notin> set vs" by auto
    have "(us @ [a]) @ c # vs = (us' @ [b]) @ c # vs'"
      unfolding 3 [symmetric] by (fact 4)
    then have "us @ [a] = us' @ [b] \<and> vs = vs'"
      by (rule append_Cons_eq_iff [OF nin, THEN iffD1])
    then show ?thesis by simp
  qed
  have two: "(a, c) \<notin> next_rel (heap m)" if "a \<in> nodes m" "list_unordered m = Some c" for a c
  proof
    assume "(a, c) \<in> next_rel (heap m)"
    with assms that(1) n obtain us vs where 1: "map fst xs = us @ a # c # vs"
      using list_successor by blast
    from assms that(2) obtain w ys where "xs = (c, w) # ys" by (cases xs) auto
    then have "hd (map fst xs) = c" by simp
    with 1 have "c \<in> set (us @ [a])" by (cases us) auto
    moreover from 1 have "map fst xs = (us @ [a]) @ c # vs" by simp
    with d have "c \<notin> set (us @ [a])" by auto
    ultimately show False by simp
  qed
  show ?thesis unfolding exclusive_def using one two by blast
qed

lemma list_invariant:
  "is_list (heap m) (list_unordered m) xs \<Longrightarrow> chain_invariant m"
  unfolding chain_invariant_def using list_acyclic list_exclusive by blast

section \<open>The claims\<close>

text \<open>
  Claim C1. For every sequence of values (in particular every non-empty one), appending
  the values in order to an empty head slot with \<open>append_indirect\<close> and, separately,
  with \<open>append_direct\<close> gives the same memory, and the list in it holds the values in
  the order of the input.
\<close>

theorem append_strategies_equivalent:
  assumes "fresh_allocator malloc" and "finite (dom h)"
  shows "\<exists>m xs.
           append_values Append_indirect malloc vs \<lparr>list_unordered = None, heap = h\<rparr>
             = Some (Inr m) \<and>
           append_values Append_direct malloc vs \<lparr>list_unordered = None, heap = h\<rparr>
             = Some (Inr m) \<and>
           is_list (heap m) (list_unordered m) xs \<and> map snd xs = vs"
proof -
  define m0 where "m0 = \<lparr>list_unordered = None, heap = h\<rparr>"
  have f: "finite (dom (heap m0))" and l: "is_list (heap m0) (list_unordered m0) []"
    using assms(2) by (simp_all add: m0_def)
  from append_values_list [OF assms(1) f l, of Append_indirect vs]
  obtain m xs where "append_values Append_indirect malloc vs m0 = Some (Inr m)"
    and "is_list (heap m) (list_unordered m) xs" and "map snd xs = vs"
    by auto
  moreover have "append_values Append_indirect malloc vs m0
      = append_values Append_direct malloc vs m0"
    using assms(1) f l by (rule append_values_same)
  ultimately show ?thesis unfolding m0_def by auto
qed

theorem append_strategies_equivalent_witness:
  "\<exists>m xs.
     append_values Append_indirect first_fit [3, 2, 1] \<lparr>list_unordered = None, heap = Map.empty\<rparr>
       = Some (Inr m) \<and>
     append_values Append_direct first_fit [3, 2, 1] \<lparr>list_unordered = None, heap = Map.empty\<rparr>
       = Some (Inr m) \<and>
     is_list (heap m) (list_unordered m) xs \<and> map snd xs = [3, 2, 1]"
  using append_strategies_equivalent [OF first_fit_fresh, of Map.empty "[3, 2, 1]"]
  by simp

text \<open>
  Claim C2. For every value and every head slot that holds a finite list (possibly
  empty), when the allocation succeeds with an address that is not live,
  \<open>append_indirect\<close> returns normally; the new node holds the value and has no
  successor; the list is the old list followed by the new node; and the head slot
  changes only when the old list was empty (it then refers to the new node).
\<close>

theorem append_indirect_links_new_tail:
  assumes "is_list (heap m) (list_unordered m) xs"
    and "malloc (heap m) = Some new" and "heap m new = None"
  shows "\<exists>m'. append_indirect malloc v Head m = Some (Inr m') \<and>
           heap m' new = Some \<lparr>entry_value = v, entry_next = None\<rparr> \<and>
           is_list (heap m') (list_unordered m') (xs @ [(new, v)]) \<and>
           list_unordered m' = (if xs = [] then Some new else list_unordered m)"
proof -
  from assms(1,3) have "new \<notin> fst ` set xs" using is_list_live by blast
  then have "heap (linked m xs new v) new = Some \<lparr>entry_value = v, entry_next = None\<rparr>"
    by (rule linked_new)
  moreover have "is_list (heap (linked m xs new v)) (list_unordered (linked m xs new v))
      (xs @ [(new, v)])"
    using assms(1,3) by (rule linked_is_list)
  moreover have "append_indirect malloc v Head m = Some (Inr (linked m xs new v))"
    using assms by (rule append_indirect_list)
  ultimately show ?thesis using linked_head by blast
qed

theorem append_indirect_links_new_tail_witness:
  "\<exists>m'. append_indirect first_fit 7 Head
          \<lparr>list_unordered = Some 0, heap = [0 \<mapsto> \<lparr>entry_value = 5, entry_next = None\<rparr>]\<rparr>
        = Some (Inr m') \<and>
      heap m' 1 = Some \<lparr>entry_value = 7, entry_next = None\<rparr> \<and>
      is_list (heap m') (list_unordered m') [(0, 5), (1, 7)] \<and>
      list_unordered m' = Some 0"
  using append_indirect_links_new_tail
    [of "\<lparr>list_unordered = Some 0, heap = [0 \<mapsto> \<lparr>entry_value = 5, entry_next = None\<rparr>]\<rparr>"
        "[(0, 5)]" first_fit 1 7]
  by (simp add: first_fit_def first_free.simps)

text \<open>
  Claim C3. \<open>append_direct\<close> on the head slot returns normally with a memory \<open>m'\<close>
  exactly when the allocation gives a node \<open>new\<close> and the algorithm of the
  specification, run on the memory in which \<open>new\<close> holds the value and no successor,
  yields \<open>m'\<close>: current starts as the content of the head slot and previous as none;
  each step sets previous to current and current to its successor; when current is none,
  the reference to \<open>new\<close> is written into the head slot if previous is none, and into
  the successor field of previous otherwise.
\<close>

theorem append_direct_follows_algorithm:
  "append_direct malloc v Head m = Some (Inr m') \<longleftrightarrow>
   (\<exists>new. malloc (heap m) = Some new \<and>
      append_direct_spec new
        (m\<lparr>heap := (heap m)(new \<mapsto> \<lparr>entry_value = v, entry_next = None\<rparr>)\<rparr>) m')"
proof
  assume a: "append_direct malloc v Head m = Some (Inr m')"
  show "\<exists>new. malloc (heap m) = Some new \<and>
      append_direct_spec new
        (m\<lparr>heap := (heap m)(new \<mapsto> \<lparr>entry_value = v, entry_next = None\<rparr>)\<rparr>) m'"
  proof (cases "malloc (heap m)")
    case None
    with a show ?thesis by (simp add: append_direct_def new_entry_def)
  next
    case (Some new)
    define m1 where "m1 = m\<lparr>heap := (heap m)(new \<mapsto> \<lparr>entry_value = v, entry_next = None\<rparr>)\<rparr>"
    from Some have ne: "new_entry malloc v m = Inr (new, m1)"
      by (simp add: new_entry_def m1_def)
    have hd: "list_unordered m1 = list_unordered m" by (simp add: m1_def)
    have "append_direct_spec new m1 m'"
    proof (cases "direct_loop m1 (list_unordered m) None 0")
      case None
      with a ne show ?thesis by (simp add: append_direct_def)
    next
      case q: (Some q)
      show ?thesis
      proof (cases q)
        case (Inl e)
        with a ne q show ?thesis by (simp add: append_direct_def)
      next
        case (Inr pk)
        obtain previous k where pk: "pk = (previous, k)" by (cases pk)
        with q Inr have loop: "direct_loop m1 (list_unordered m) None 0
            = Some (Inr (previous, k))"
          by simp
        then have "(walk (heap m1))\<^sup>*\<^sup>* (list_unordered m, None) (None, previous)"
          by (rule walk_of_direct_loop)
        with hd have w: "(walk (heap m1))\<^sup>*\<^sup>* (list_unordered m1, None) (None, previous)"
          by simp
        from a ne loop have "(case previous of
              None \<Rightarrow> m' = m1\<lparr>list_unordered := Some new\<rparr>
            | Some p \<Rightarrow>
                (case heap m1 p of
                   None \<Rightarrow> False
                 | Some e \<Rightarrow> m' = m1\<lparr>heap := (heap m1)(p \<mapsto> e\<lparr>entry_next := Some new\<rparr>)\<rparr>))"
          by (auto simp: append_direct_def split: option.splits)
        with w show ?thesis
          unfolding append_direct_spec_def by (intro exI [of _ previous] conjI)
      qed
    qed
    with Some show ?thesis unfolding m1_def by blast
  qed
next
  assume "\<exists>new. malloc (heap m) = Some new \<and>
      append_direct_spec new
        (m\<lparr>heap := (heap m)(new \<mapsto> \<lparr>entry_value = v, entry_next = None\<rparr>)\<rparr>) m'"
  then obtain new where al: "malloc (heap m) = Some new"
    and sp: "append_direct_spec new
        (m\<lparr>heap := (heap m)(new \<mapsto> \<lparr>entry_value = v, entry_next = None\<rparr>)\<rparr>) m'"
    by blast
  define m1 where "m1 = m\<lparr>heap := (heap m)(new \<mapsto> \<lparr>entry_value = v, entry_next = None\<rparr>)\<rparr>"
  from al have ne: "new_entry malloc v m = Inr (new, m1)"
    by (simp add: new_entry_def m1_def)
  have hd: "list_unordered m1 = list_unordered m" by (simp add: m1_def)
  from sp obtain previous where
    w: "(walk (heap m1))\<^sup>*\<^sup>* (list_unordered m1, None) (None, previous)"
    and st: "(case previous of
              None \<Rightarrow> m' = m1\<lparr>list_unordered := Some new\<rparr>
            | Some p \<Rightarrow>
                (case heap m1 p of
                   None \<Rightarrow> False
                 | Some e \<Rightarrow> m' = m1\<lparr>heap := (heap m1)(p \<mapsto> e\<lparr>entry_next := Some new\<rparr>)\<rparr>))"
    unfolding append_direct_spec_def m1_def by blast
  from direct_loop_of_walk [OF w refl, of 0] hd
  obtain k where "direct_loop m1 (list_unordered m) None 0 = Some (Inr (previous, k))"
    by auto
  with ne st show "append_direct malloc v Head m = Some (Inr m')"
    by (auto simp: append_direct_def split: option.splits)
qed

theorem append_direct_follows_algorithm_witness:
  "append_direct first_fit 7 Head
     \<lparr>list_unordered = Some 0, heap = [0 \<mapsto> \<lparr>entry_value = 5, entry_next = None\<rparr>]\<rparr>
     = Some (Inr \<lparr>list_unordered = Some 0,
                  heap = [0 \<mapsto> \<lparr>entry_value = 5, entry_next = Some 1\<rparr>,
                          1 \<mapsto> \<lparr>entry_value = 7, entry_next = None\<rparr>]\<rparr>) \<and>
   first_fit [0 \<mapsto> \<lparr>entry_value = 5, entry_next = None\<rparr>] = Some 1 \<and>
   append_direct_spec 1
     \<lparr>list_unordered = Some 0,
      heap = [0 \<mapsto> \<lparr>entry_value = 5, entry_next = None\<rparr>,
              1 \<mapsto> \<lparr>entry_value = 7, entry_next = None\<rparr>]\<rparr>
     \<lparr>list_unordered = Some 0,
      heap = [0 \<mapsto> \<lparr>entry_value = 5, entry_next = Some 1\<rparr>,
              1 \<mapsto> \<lparr>entry_value = 7, entry_next = None\<rparr>]\<rparr>"
proof -
  define m where "m = \<lparr>list_unordered = Some 0,
    heap = [0 \<mapsto> \<lparr>entry_value = 5, entry_next = None\<rparr>]\<rparr>"
  define m' where "m' = \<lparr>list_unordered = Some 0,
    heap = [0 \<mapsto> \<lparr>entry_value = 5, entry_next = Some 1\<rparr>,
            1 \<mapsto> \<lparr>entry_value = 7, entry_next = None\<rparr>]\<rparr>"
  have al: "first_fit (heap m) = Some 1"
    by (simp add: m_def first_fit_def first_free.simps)
  have "heap (linked m [(0, 5)] 1 7) = heap m'"
    by (rule ext) (simp add: linked_def m_def m'_def)
  then have lk: "linked m [(0, 5)] 1 7 = m'"
    by (simp add: linked_def m_def m'_def)
  have h1: "is_list (heap m) (list_unordered m) [(0, 5)]" by (simp add: m_def)
  have h3: "heap m 1 = None" by (simp add: m_def)
  have run: "append_direct first_fit 7 Head m = Some (Inr m')"
    using append_direct_list [of m "[(0, 5)]" first_fit 1 7, OF h1 al h3] lk by simp
  then obtain new where n: "first_fit (heap m) = Some new"
    and sp: "append_direct_spec new
      (m\<lparr>heap := (heap m)(new \<mapsto> \<lparr>entry_value = 7, entry_next = None\<rparr>)\<rparr>) m'"
    unfolding append_direct_follows_algorithm by blast
  from n al have "new = 1" by simp
  with sp have "append_direct_spec 1
      (m\<lparr>heap := (heap m)(1 \<mapsto> \<lparr>entry_value = 7, entry_next = None\<rparr>)\<rparr>) m'"
    by simp
  with run al show ?thesis by (simp add: m_def m'_def)
qed

text \<open>
  Claim C4. For every sequence of values, the empty and the singleton sequences included,
  building the list from an empty head slot and then running the traversal of
  \<^verbatim>\<open>main\<close> with output enabled prints the values of the sequence, in order.
\<close>

theorem build_then_traverse_round_trip:
  assumes "fresh_allocator malloc" and "finite (dom h)"
  shows "\<exists>m h' outs.
           append_values append_ptr malloc vs \<lparr>list_unordered = None, heap = h\<rparr>
             = Some (Inr m) \<and>
           release_loop True i (list_unordered m) (heap m) [] = Some (Inr (h', outs)) \<and>
           map snd (node_values outs) = vs"
proof -
  define m0 where "m0 = \<lparr>list_unordered = None, heap = h\<rparr>"
  have f: "finite (dom (heap m0))" and l: "is_list (heap m0) (list_unordered m0) []"
    using assms(2) by (simp_all add: m0_def)
  from append_values_list [OF assms(1) f l, of append_ptr vs]
  obtain m xs where b: "append_values append_ptr malloc vs m0 = Some (Inr m)"
    and xs: "is_list (heap m) (list_unordered m) xs" "map snd xs = vs"
    by auto
  have "release_loop True i (list_unordered m) (heap m) []
      = Some (Inr (\<lambda>a. if a \<in> fst ` set xs then None else heap m a,
                   [] @ (if True then node_lines i xs else [])))"
    using xs(1) by (rule release_loop_list)
  moreover have "map snd (node_values (node_lines i xs)) = vs"
    using xs(2) by (simp add: node_values_node_lines o_def)
  ultimately show ?thesis using b unfolding m0_def by simp
qed

theorem build_then_traverse_round_trip_witness:
  "\<exists>m h' outs.
     append_values append_init first_fit [7] \<lparr>list_unordered = None, heap = Map.empty\<rparr>
       = Some (Inr m) \<and>
     release_loop True 0 (list_unordered m) (heap m) [] = Some (Inr (h', outs)) \<and>
     map snd (node_values outs) = [7]"
  using build_then_traverse_round_trip [OF first_fit_fresh, of Map.empty append_init "[7]" 0]
  by simp

text \<open>
  Claim C5. An append (either function) to a list \<open>xs\<close> leaves every node of \<open>xs\<close> at
  its place with its value: the new list is \<open>xs\<close> followed by the new node. The only
  cells of the heap that change are the new node and the last node of \<open>xs\<close>, of which
  only the \<^verbatim>\<open>next\<close> field changes. The head slot changes only when \<open>xs\<close> is empty.
\<close>

theorem append_frame:
  assumes "is_list (heap m) (list_unordered m) xs"
    and "malloc (heap m) = Some new" and "heap m new = None"
  shows "\<exists>m'. call_append append_ptr malloc v Head m = Some (Inr m') \<and>
           is_list (heap m') (list_unordered m') (xs @ [(new, v)]) \<and>
           (\<forall>a. a \<noteq> new \<and> (xs = [] \<or> a \<noteq> fst (last xs)) \<longrightarrow> heap m' a = heap m a) \<and>
           (xs \<noteq> [] \<longrightarrow>
              (\<exists>e. heap m (fst (last xs)) = Some e \<and> entry_next e = None \<and>
                   heap m' (fst (last xs)) = Some (e\<lparr>entry_next := Some new\<rparr>))) \<and>
           (xs \<noteq> [] \<longrightarrow> list_unordered m' = list_unordered m) \<and>
           (xs = [] \<longrightarrow> list_unordered m = None \<and> list_unordered m' = Some new)"
proof -
  define m' where "m' = linked m xs new v"
  have "call_append append_ptr malloc v Head m = Some (Inr m')"
    unfolding m'_def using assms by (rule call_append_list)
  moreover have "is_list (heap m') (list_unordered m') (xs @ [(new, v)])"
    unfolding m'_def using assms(1,3) by (rule linked_is_list)
  moreover have "\<forall>a. a \<noteq> new \<and> (xs = [] \<or> a \<noteq> fst (last xs)) \<longrightarrow> heap m' a = heap m a"
    by (simp add: m'_def linked_def)
  moreover have "xs \<noteq> [] \<longrightarrow>
      (\<exists>e. heap m (fst (last xs)) = Some e \<and> entry_next e = None \<and>
           heap m' (fst (last xs)) = Some (e\<lparr>entry_next := Some new\<rparr>))"
  proof
    assume ne: "xs \<noteq> []"
    with assms(1) obtain e where e: "heap m (fst (last xs)) = Some e"
      "entry_value e = snd (last xs)" "entry_next e = None"
      using is_list_last by blast
    from e(2) have "e\<lparr>entry_next := Some new\<rparr>
        = \<lparr>entry_value = snd (last xs), entry_next = Some new\<rparr>"
      by (cases e) simp
    with ne have "heap m' (fst (last xs)) = Some (e\<lparr>entry_next := Some new\<rparr>)"
      by (simp add: m'_def linked_def)
    with e show "\<exists>e. heap m (fst (last xs)) = Some e \<and> entry_next e = None \<and>
        heap m' (fst (last xs)) = Some (e\<lparr>entry_next := Some new\<rparr>)"
      by blast
  qed
  moreover have "xs \<noteq> [] \<longrightarrow> list_unordered m' = list_unordered m"
    by (simp add: m'_def linked_def)
  moreover have "xs = [] \<longrightarrow> list_unordered m = None \<and> list_unordered m' = Some new"
    using assms(1) by (auto simp: m'_def linked_def)
  ultimately show ?thesis by (intro exI [of _ m'] conjI)
qed

theorem append_frame_witness:
  "\<exists>m'. call_append Append_direct first_fit 7 Head
           \<lparr>list_unordered = Some 0,
            heap = [0 \<mapsto> \<lparr>entry_value = 5, entry_next = Some 1\<rparr>,
                    1 \<mapsto> \<lparr>entry_value = 6, entry_next = None\<rparr>]\<rparr> = Some (Inr m') \<and>
     is_list (heap m') (list_unordered m') [(0, 5), (1, 6), (2, 7)] \<and>
     heap m' 0 = Some \<lparr>entry_value = 5, entry_next = Some 1\<rparr> \<and>
     heap m' 1 = Some \<lparr>entry_value = 6, entry_next = Some 2\<rparr> \<and>
     list_unordered m' = Some 0"
proof -
  define m where "m = \<lparr>list_unordered = Some 0,
    heap = [0 \<mapsto> \<lparr>entry_value = 5, entry_next = Some 1\<rparr>,
            1 \<mapsto> \<lparr>entry_value = 6, entry_next = None\<rparr>]\<rparr>"
  have h1: "is_list (heap m) (list_unordered m) [(0, 5), (1, 6)]"
    by (simp add: m_def)
  have h2: "first_fit (heap m) = Some 2"
    by (simp add: m_def first_fit_def first_free.simps)
  have h3: "heap m 2 = None" by (simp add: m_def)
  from append_frame [of m "[(0, 5), (1, 6)]" first_fit 2 Append_direct 7, OF h1 h2 h3]
  obtain m' where a: "call_append Append_direct first_fit 7 Head m = Some (Inr m')"
    and b: "is_list (heap m') (list_unordered m') ([(0, 5), (1, 6)] @ [(2, 7)])"
    and c: "\<forall>a. a \<noteq> 2 \<and> ([(0 :: addr, 5 :: 32 word), (1, 6)] = [] \<or>
                a \<noteq> fst (last [(0, 5), (1, 6 :: 32 word)]))
              \<longrightarrow> heap m' a = heap m a"
    and d: "[(0 :: addr, 5 :: 32 word), (1, 6)] \<noteq> [] \<longrightarrow>
              (\<exists>e. heap m (fst (last [(0, 5), (1, 6 :: 32 word)])) = Some e \<and> entry_next e = None \<and>
                   heap m' (fst (last [(0, 5), (1, 6 :: 32 word)])) = Some (e\<lparr>entry_next := Some 2\<rparr>))"
    and e: "[(0 :: addr, 5 :: 32 word), (1, 6)] \<noteq> [] \<longrightarrow> list_unordered m' = list_unordered m"
    by (elim exE conjE)
  from c have "heap m' 0 = heap m 0" by simp
  then have c': "heap m' 0 = Some \<lparr>entry_value = 5, entry_next = Some 1\<rparr>"
    by (simp add: m_def)
  from d have d': "heap m' 1 = Some \<lparr>entry_value = 6, entry_next = Some 2\<rparr>"
    by (simp add: m_def)
  from e have e': "list_unordered m' = Some 0" by (simp add: m_def)
  from b have b': "is_list (heap m') (list_unordered m') [(0, 5), (1, 6), (2, 7)]"
    by simp
  from a b' c' d' e' show ?thesis
    unfolding m_def by (intro exI [of _ m'] conjI)
qed

text \<open>
  Claim C6. An append (either function) to a list that satisfies the chain invariant
  returns a list that satisfies it: finite and ending in \<^verbatim>\<open>NULL\<close>, no node reachable
  from itself, no node pointed to by two \<^verbatim>\<open>next\<close> fields of the list or by the head slot
  and a \<^verbatim>\<open>next\<close> field. The nodes of the new list are the old ones and the new node.
\<close>

theorem append_preserves_chain_invariant:
  assumes "chain_invariant m" and "malloc (heap m) = Some new" and "heap m new = None"
  shows "\<exists>m'. call_append append_ptr malloc v Head m = Some (Inr m') \<and>
           chain_invariant m' \<and> nodes m' = insert new (nodes m)"
proof -
  from assms(1) obtain xs where l: "is_list (heap m) (list_unordered m) xs"
    unfolding chain_invariant_def by blast
  define m' where "m' = linked m xs new v"
  have c: "call_append append_ptr malloc v Head m = Some (Inr m')"
    unfolding m'_def using l assms(2,3) by (rule call_append_list)
  have l': "is_list (heap m') (list_unordered m') (xs @ [(new, v)])"
    unfolding m'_def using l assms(3) by (rule linked_is_list)
  then have "chain_invariant m'" by (rule list_invariant)
  moreover have "nodes m' = insert new (nodes m)"
    using nodes_list [OF l] nodes_list [OF l'] by simp
  ultimately show ?thesis using c by blast
qed

theorem append_preserves_chain_invariant_witness:
  "chain_invariant
     \<lparr>list_unordered = Some 0,
      heap = [0 \<mapsto> \<lparr>entry_value = 5, entry_next = Some 1\<rparr>,
              1 \<mapsto> \<lparr>entry_value = 6, entry_next = None\<rparr>]\<rparr> \<and>
   (\<exists>m'. call_append Append_direct first_fit 7 Head
            \<lparr>list_unordered = Some 0,
             heap = [0 \<mapsto> \<lparr>entry_value = 5, entry_next = Some 1\<rparr>,
                     1 \<mapsto> \<lparr>entry_value = 6, entry_next = None\<rparr>]\<rparr> = Some (Inr m') \<and>
      chain_invariant m' \<and> 2 \<in> nodes m')"
proof -
  define m where "m = \<lparr>list_unordered = Some 0,
    heap = [0 \<mapsto> \<lparr>entry_value = 5, entry_next = Some 1\<rparr>,
            1 \<mapsto> \<lparr>entry_value = 6, entry_next = None\<rparr>]\<rparr>"
  have "is_list (heap m) (list_unordered m) [(0, 5), (1, 6)]" by (simp add: m_def)
  then have h1: "chain_invariant m" by (rule list_invariant)
  have h2: "first_fit (heap m) = Some 2"
    by (simp add: m_def first_fit_def first_free.simps)
  have h3: "heap m 2 = None" by (simp add: m_def)
  from append_preserves_chain_invariant [of m first_fit 2 Append_direct 7, OF h1 h2 h3]
  obtain m' where "call_append Append_direct first_fit 7 Head m = Some (Inr m')"
    and "chain_invariant m'" and "nodes m' = insert 2 (nodes m)"
    by blast
  then have "\<exists>m'. call_append Append_direct first_fit 7 Head m = Some (Inr m') \<and>
      chain_invariant m' \<and> 2 \<in> nodes m'"
    by blast
  with h1 show ?thesis unfolding m_def by simp
qed

text \<open>
  Claim C7. \<^verbatim>\<open>main\<close> returns \<open>-1\<close>, which is not zero, after printing the usage
  message when fewer than two arguments follow the program name, and after printing an
  error message when \<^verbatim>\<open>atoi\<close> of the second argument is less than 1. On these two
  paths the result does not depend on the allocator, the heap is returned as it was and
  nothing else is printed: no list is built. In every other invocation \<^verbatim>\<open>main\<close> returns
  0, when the allocator returns addresses that are not live.
\<close>

theorem main_exit_status:
  "(length argv < 3 \<longrightarrow>
      main malloc atoi char_signed append_ptr argv h
        = Some (Inr (- 1,
             [Text (''Usage:'' @ [CHR 0x0A]),
              Text ''First argument: String to insert into the linked list'',
              Text ''Second argument: Number of test iterations to run'',
              Text ''Third argument: If exists, silence output''], h))) \<and>
   (3 \<le> length argv \<and> sint (atoi (argv ! 2)) < 1 \<longrightarrow>
      main malloc atoi char_signed append_ptr argv h
        = Some (Inr (- 1, [Text ''Number of iterations must be an integer greater than 0''], h))) \<and>
   (3 \<le> length argv \<and> 1 \<le> sint (atoi (argv ! 2)) \<and> fresh_allocator malloc \<and> finite (dom h) \<longrightarrow>
      (\<exists>outs. main malloc atoi char_signed append_ptr argv h = Some (Inr (0, outs, h)))) \<and>
   (- 1 :: 32 word) \<noteq> 0"
proof (intro conjI impI)
  assume "length argv < 3"
  then show "main malloc atoi char_signed append_ptr argv h
      = Some (Inr (- 1,
             [Text (''Usage:'' @ [CHR 0x0A]),
              Text ''First argument: String to insert into the linked list'',
              Text ''Second argument: Number of test iterations to run'',
              Text ''Third argument: If exists, silence output''], h))"
    by (simp add: main_def usage_def)
next
  assume "3 \<le> length argv \<and> sint (atoi (argv ! 2)) < 1"
  then show "main malloc atoi char_signed append_ptr argv h
      = Some (Inr (- 1, [Text ''Number of iterations must be an integer greater than 0''], h))"
    by (simp add: main_def)
next
  assume a: "3 \<le> length argv \<and> 1 \<le> sint (atoi (argv ! 2)) \<and> fresh_allocator malloc \<and> finite (dom h)"
  define out where "out = (\<not> 3 < length argv)"
  define outs0 where "outs0 = (if out then announce append_ptr else [])"
  from a have "fresh_allocator malloc" "finite (dom h)" by simp_all
  from iteration_loop_list [OF this, of append_ptr char_signed out "argv ! 1"
      "nat (sint (atoi (argv ! 2)))" 0 outs0]
  obtain lines where "iteration_loop malloc append_ptr char_signed out (argv ! 1)
      (nat (sint (atoi (argv ! 2)))) 0 h outs0 = Some (Inr (h, outs0 @ lines))"
    by blast
  with a have "main malloc atoi char_signed append_ptr argv h = Some (Inr (0, outs0 @ lines, h))"
    by (simp add: main_def Let_def out_def outs0_def)
  then show "\<exists>outs. main malloc atoi char_signed append_ptr argv h = Some (Inr (0, outs, h))"
    by blast
next
  show "(- 1 :: 32 word) \<noteq> 0" by simp
qed

theorem main_exit_status_witness:
  "main first_fit (\<lambda>s. 2) True append_init [''prog''] Map.empty
     = Some (Inr (- 1,
          [Text (''Usage:'' @ [CHR 0x0A]),
           Text ''First argument: String to insert into the linked list'',
           Text ''Second argument: Number of test iterations to run'',
           Text ''Third argument: If exists, silence output''], Map.empty)) \<and>
   main first_fit (\<lambda>s. 0) True append_init [''prog'', ''321'', ''0''] Map.empty
     = Some (Inr (- 1, [Text ''Number of iterations must be an integer greater than 0''], Map.empty)) \<and>
   (\<exists>outs. main first_fit (\<lambda>s. 2) True append_init [''prog'', ''321'', ''2''] Map.empty
     = Some (Inr (0, outs, Map.empty)))"
  using main_exit_status [of "[''prog'']" first_fit "\<lambda>s. 2" True append_init Map.empty]
    main_exit_status [of "[''prog'', ''321'', ''0'']" first_fit "\<lambda>s. 0" True append_init Map.empty]
    main_exit_status [of "[''prog'', ''321'', ''2'']" first_fit "\<lambda>s. 2" True append_init Map.empty]
    first_fit_fresh
  by simp



text \<open>
  Claim C9. For every string \<open>s\<close> and every iteration count \<open>K\<close>, every cycle \<open>i < K\<close> of
  the outer loop starts with the heap \<open>h\<close> the program started with and with an empty
  head slot; it builds the same list \<open>xs\<close>, whose values are those of \<open>s\<close>, and returns the
  heap to \<open>h\<close>. The whole loop prints the values of \<open>s\<close> once per iteration.
\<close>

theorem cycles_are_independent:
  assumes "fresh_allocator malloc" and "finite (dom h)"
  shows "\<exists>m xs.
           build_loop malloc append_ptr char_signed s 0 \<lparr>list_unordered = None, heap = h\<rparr>
             = Some (Inr m) \<and>
           is_list (heap m) (list_unordered m) xs \<and>
           map snd xs = map (char_minus_zero char_signed) s \<and>
           (\<forall>i < K. \<exists>lines.
              iteration_loop malloc append_ptr char_signed out s i 0 h outs
                = Some (Inr (h, outs @ lines)) \<and>
              iteration_loop malloc append_ptr char_signed out s K 0 h outs
                = iteration_loop malloc append_ptr char_signed out s K i h (outs @ lines) \<and>
              cycle malloc append_ptr char_signed out s i h (outs @ lines)
                = Some (Inr (h, (outs @ lines) @ (if out then node_lines i xs else [])))) \<and>
           (\<exists>lines. iteration_loop malloc append_ptr char_signed out s K 0 h outs
                = Some (Inr (h, outs @ lines)) \<and>
              node_values lines
                = (if out
                   then concat (map (\<lambda>i. map (\<lambda>c. (i, char_minus_zero char_signed c)) s) [0..<K])
                   else []))"
proof -
  from cycle_list [OF assms, of append_ptr char_signed s]
  obtain m xs where b: "build_loop malloc append_ptr char_signed s 0
        \<lparr>list_unordered = None, heap = h\<rparr> = Some (Inr m)"
    and l: "is_list (heap m) (list_unordered m) xs"
    and v: "map snd xs = map (char_minus_zero char_signed) s"
    by blast
  have each: "\<forall>i < K. \<exists>lines.
      iteration_loop malloc append_ptr char_signed out s i 0 h outs
        = Some (Inr (h, outs @ lines)) \<and>
      iteration_loop malloc append_ptr char_signed out s K 0 h outs
        = iteration_loop malloc append_ptr char_signed out s K i h (outs @ lines) \<and>
      cycle malloc append_ptr char_signed out s i h (outs @ lines)
        = Some (Inr (h, (outs @ lines) @ (if out then node_lines i xs else [])))"
  proof (intro allI impI)
    fix i
    assume i: "i < K"
    from iteration_loop_list [OF assms, of append_ptr char_signed out s i 0 outs]
    obtain lines where p: "iteration_loop malloc append_ptr char_signed out s i 0 h outs
        = Some (Inr (h, outs @ lines))"
      by blast
    from i have "0 \<le> i" "i \<le> K" by simp_all
    from this p have q: "iteration_loop malloc append_ptr char_signed out s K 0 h outs
        = iteration_loop malloc append_ptr char_signed out s K i h (outs @ lines)"
      by (rule iteration_loop_split)
    from cycle_list [OF assms, of append_ptr char_signed s out i "outs @ lines"]
    obtain m' xs' where b': "build_loop malloc append_ptr char_signed s 0
          \<lparr>list_unordered = None, heap = h\<rparr> = Some (Inr m')"
      and l': "is_list (heap m') (list_unordered m') xs'"
      and c': "cycle malloc append_ptr char_signed out s i h (outs @ lines)
          = Some (Inr (h, (outs @ lines) @ (if out then node_lines i xs' else [])))"
      by blast
    from b b' have "m' = m" by simp
    with l l' have "xs' = xs" using is_list_unique by blast
    with p q c' show "\<exists>lines.
        iteration_loop malloc append_ptr char_signed out s i 0 h outs
          = Some (Inr (h, outs @ lines)) \<and>
        iteration_loop malloc append_ptr char_signed out s K 0 h outs
          = iteration_loop malloc append_ptr char_signed out s K i h (outs @ lines) \<and>
        cycle malloc append_ptr char_signed out s i h (outs @ lines)
          = Some (Inr (h, (outs @ lines) @ (if out then node_lines i xs else [])))"
      by (intro exI [of _ lines] conjI) simp_all
  qed
  from iteration_loop_list [OF assms, of append_ptr char_signed out s K 0 outs]
  have whole: "\<exists>lines. iteration_loop malloc append_ptr char_signed out s K 0 h outs
        = Some (Inr (h, outs @ lines)) \<and>
      node_values lines
        = (if out
           then concat (map (\<lambda>i. map (\<lambda>c. (i, char_minus_zero char_signed c)) s) [0..<K])
           else [])"
    by blast
  from b l v each whole show ?thesis
    by (intro exI [of _ m] exI [of _ xs] conjI)
qed

theorem cycles_are_independent_witness:
  "\<exists>lines. iteration_loop first_fit append_init True True ''321'' 2 0 Map.empty []
       = Some (Inr (Map.empty, lines)) \<and>
     node_values lines = [(0, 3), (0, 2), (0, 1), (1, 3), (1, 2), (1, 1)]"
proof -
  have f: "finite (dom (Map.empty :: addr \<rightharpoonup> list_entry))" by simp
  from cycles_are_independent [OF first_fit_fresh f, of append_init True "''321''" 2 True "[]"]
  obtain lines where a: "iteration_loop first_fit append_init True True ''321'' 2 0 Map.empty []
        = Some (Inr (Map.empty, [] @ lines))"
    and b: "node_values lines
      = (if True
         then concat (map (\<lambda>i. map (\<lambda>c. (i, char_minus_zero True c)) ''321'') [0..<2])
         else [])"
    by blast
  have "[0..<2] = [0, 1]" by (simp add: upt_rec)
  with b have "node_values lines = [(0, 3), (0, 2), (0, 1), (1, 3), (1, 2), (1, 1)]"
    by (simp add: char_minus_zero_def char_to_int_def)
  with a show ?thesis by simp
qed

text \<open>
  Claim C10. On a head slot that holds a finite list \<open>xs\<close>, with a successful fresh
  allocation, the loop of \<open>append_indirect\<close> and the loop of \<open>append_direct\<close> each
  terminate after exactly \<open>length xs\<close> executions of their body (the last component
  of the loop's result), and both appends return normally.
\<close>

theorem append_loops_terminate:
  assumes "is_list (heap m) (list_unordered m) xs"
    and "malloc (heap m) = Some new" and "heap m new = None"
  shows "\<exists>m1 indirect prev m_i m_d.
           new_entry malloc v m = Inr (new, m1) \<and>
           indirect_loop m1 Head 0 = Some (Inr (indirect, length xs)) \<and>
           direct_loop m1 (list_unordered m) None 0 = Some (Inr (prev, length xs)) \<and>
           append_indirect malloc v Head m = Some (Inr m_i) \<and>
           append_direct malloc v Head m = Some (Inr m_d)"
proof -
  let ?m1 = "m\<lparr>heap := (heap m)(new \<mapsto> \<lparr>entry_value = v, entry_next = None\<rparr>)\<rparr>"
  from assms(2) have ne: "new_entry malloc v m = Inr (new, ?m1)"
    by (simp add: new_entry_def)
  from assms(1,3) have "new \<notin> fst ` set xs" using is_list_live by blast
  with assms(1) have l: "is_list (heap ?m1) (list_unordered m) xs" by (simp add: is_list_upd_other)
  then have "indirect_loop ?m1 Head 0 = Some (Inr (last_slot Head xs, 0 + length xs))"
    by (rule indirect_loop_list) simp
  moreover from l have "direct_loop ?m1 (list_unordered m) None 0
      = Some (Inr (if xs = [] then None else Some (fst (last xs)), 0 + length xs))"
    by (rule direct_loop_list)
  moreover note ne append_indirect_list [of m xs malloc new v, OF assms]
    append_direct_list [of m xs malloc new v, OF assms]
  ultimately show ?thesis by simp
qed

theorem append_loops_terminate_witness:
  "\<exists>m1 indirect prev m_i m_d.
     new_entry first_fit 7
        \<lparr>list_unordered = Some 0,
         heap = [0 \<mapsto> \<lparr>entry_value = 5, entry_next = Some 1\<rparr>,
                 1 \<mapsto> \<lparr>entry_value = 6, entry_next = None\<rparr>]\<rparr> = Inr (2, m1) \<and>
     indirect_loop m1 Head 0 = Some (Inr (indirect, 2)) \<and>
     direct_loop m1 (Some 0) None 0 = Some (Inr (prev, 2)) \<and>
     append_indirect first_fit 7 Head
        \<lparr>list_unordered = Some 0,
         heap = [0 \<mapsto> \<lparr>entry_value = 5, entry_next = Some 1\<rparr>,
                 1 \<mapsto> \<lparr>entry_value = 6, entry_next = None\<rparr>]\<rparr> = Some (Inr m_i) \<and>
     append_direct first_fit 7 Head
        \<lparr>list_unordered = Some 0,
         heap = [0 \<mapsto> \<lparr>entry_value = 5, entry_next = Some 1\<rparr>,
                 1 \<mapsto> \<lparr>entry_value = 6, entry_next = None\<rparr>]\<rparr> = Some (Inr m_d)"
  using append_loops_terminate
    [of "\<lparr>list_unordered = Some 0,
         heap = [0 \<mapsto> \<lparr>entry_value = 5, entry_next = Some 1\<rparr>,
                 1 \<mapsto> \<lparr>entry_value = 6, entry_next = None\<rparr>]\<rparr>"
        "[(0, 5), (1, 6)]" first_fit 2 7]
  by (simp add: first_fit_def first_free.simps numeral_2_eq_2)

end
